theory Spec2Isabelle
  imports Main "HOL-Library.Multiset"
begin

section \<open>Media platform analytics: rate limiter, event log, aggregation, cache\<close>

text \<open>
  A shallow embedding of \<^verbatim>\<open>src/app/main.py\<close>: the sliding-window rate limiter
  \<^verbatim>\<open>rate_limit\<close>, the view log written by \<^verbatim>\<open>log_view\<close>, and the cached
  aggregation served by \<^verbatim>\<open>get_analytics\<close>. The process-wide dictionaries of the
  source are the fields of one state record that every operation takes and returns.
  Each reading of the clock (\<^verbatim>\<open>datetime.utcnow()\<close>) is an argument of the operation
  that makes it. A raised \<^verbatim>\<open>HTTPException\<close> is the left injection of the result; the
  state is returned beside it, since what was written before the raise stays written.
\<close>

subsection \<open>Clock values: \<^verbatim>\<open>datetime\<close> and \<^verbatim>\<open>timedelta\<close>\<close>

text \<open>
  A naive \<^verbatim>\<open>datetime\<close> holds its calendar fields, a \<^verbatim>\<open>date\<close> the first three
  (the class \<^verbatim>\<open>datetime\<close> extends \<^verbatim>\<open>date\<close>). The constructors keep the fields in
  range (\<open>valid_datetime\<close>), and the tables of days are read at a month from 1 to 12
  only. The arithmetic below is the one of the standard library's \<^verbatim>\<open>datetime\<close>
  module: \<^verbatim>\<open>_is_leap\<close>, \<^verbatim>\<open>_days_before_year\<close>, \<^verbatim>\<open>_days_before_month\<close>,
  \<^verbatim>\<open>_ymd2ord\<close>, \<^verbatim>\<open>toordinal\<close>.
\<close>

record date =
  year :: nat
  month :: nat
  day :: nat

record datetime = date +
  hour :: nat
  minute :: nat
  second :: nat
  microsecond :: nat

definition is_leap :: "int \<Rightarrow> bool" where
  "is_leap y = (y mod 4 = 0 \<and> (y mod 100 \<noteq> 0 \<or> y mod 400 = 0))"

definition days_before_year :: "int \<Rightarrow> int" where
  "days_before_year yr = (let y = yr - 1 in y * 365 + y div 4 - y div 100 + y div 400)"

definition DAYS_BEFORE_MONTH :: "int list" where
  "DAYS_BEFORE_MONTH = [-1, 0, 31, 59, 90, 120, 151, 181, 212, 243, 273, 304, 334]"

definition DAYS_IN_MONTH :: "nat list" where
  "DAYS_IN_MONTH = [0, 31, 28, 31, 30, 31, 30, 31, 31, 30, 31, 30, 31]"

definition days_in_month :: "nat \<Rightarrow> nat \<Rightarrow> nat" where
  "days_in_month y m = (if m = 2 \<and> is_leap (int y) then 29 else DAYS_IN_MONTH ! m)"

definition days_before_month :: "int \<Rightarrow> nat \<Rightarrow> int" where
  "days_before_month y m =
     DAYS_BEFORE_MONTH ! m + (if 2 < m \<and> is_leap y then 1 else 0)"

definition ymd2ord :: "nat \<Rightarrow> nat \<Rightarrow> nat \<Rightarrow> int" where
  "ymd2ord y m d = days_before_year (int y) + days_before_month (int y) m + int d"

definition toordinal :: "'a date_scheme \<Rightarrow> int" where
  "toordinal t = ymd2ord (year t) (month t) (day t)"

definition valid_datetime :: "datetime \<Rightarrow> bool" where
  "valid_datetime t =
     (1 \<le> year t \<and> year t \<le> 9999 \<and> 1 \<le> month t \<and> month t \<le> 12 \<and>
      1 \<le> day t \<and> day t \<le> days_in_month (year t) (month t) \<and>
      hour t < 24 \<and> minute t < 60 \<and> second t < 60 \<and> microsecond t < 1000000)"

text \<open>
  A \<^verbatim>\<open>timedelta\<close> is normalised on construction: \<open>0 \<le> seconds < 86400\<close> and
  \<open>0 \<le> microseconds < 1000000\<close>, the sign is carried by \<open>days\<close> alone.
\<close>

record timedelta =
  days :: int
  seconds :: int
  microseconds :: int

definition mk_timedelta :: "int \<Rightarrow> int \<Rightarrow> int \<Rightarrow> timedelta" where
  "mk_timedelta d s us =
     (let total = (d * 86400 + s) * 1000000 + us
      in \<lparr>days = total div 86400000000,
          seconds = (total mod 86400000000) div 1000000,
          microseconds = total mod 1000000\<rparr>)"

text \<open>\<^verbatim>\<open>datetime.__sub__\<close>: the difference of the ordinals, of the seconds of the
  day and of the microseconds, normalised.\<close>

definition dt_sub :: "datetime \<Rightarrow> datetime \<Rightarrow> timedelta" where
  "dt_sub a b =
     mk_timedelta (toordinal a - toordinal b)
       ((int (second a) + int (minute a) * 60 + int (hour a) * 3600)
        - (int (second b) + int (minute b) * 60 + int (hour b) * 3600))
       (int (microsecond a) - int (microsecond b))"

text \<open>The elapsed time \<open>a - b\<close> in microseconds (\<^verbatim>\<open>total_seconds()\<close>, scaled), the
  quantity the specification's window condition speaks of.\<close>

definition total_microseconds :: "timedelta \<Rightarrow> int" where
  "total_microseconds d = (days d * 86400 + seconds d) * 1000000 + microseconds d"

subsection \<open>The rate limiter\<close>

text \<open>
  The two \<^verbatim>\<open>HTTPException\<close>s the handlers raise, and the two ways the decoding of a
  cached text leaves the fragment of Python modelled here (see \<open>py_eval\<close>).
\<close>

datatype http_error =
    HTTP_404_Media_not_found
  | HTTP_429_Too_many_requests
  | Eval_outside_literals
  | TypeError_not_a_mapping

definition RATE_LIMIT :: nat where
  "RATE_LIMIT = 5"

definition WINDOW :: int where
  "WINDOW = 60"

text \<open>
  A \<^verbatim>\<open>defaultdict(list)\<close> is a finite map; reading a missing key yields the empty
  list (and enters the key, which the writes below do as well).
\<close>

definition dd_list :: "('k \<rightharpoonup> 'v list) \<Rightarrow> 'k \<Rightarrow> 'v list" where
  "dd_list m k = (case m k of None \<Rightarrow> [] | Some xs \<Rightarrow> xs)"

type_synonym rate_store = "string \<rightharpoonup> datetime list"

text \<open>The list comprehension of \<^verbatim>\<open>rate_limit\<close>: the kept timestamps.\<close>

definition keep_recent :: "datetime \<Rightarrow> datetime list \<Rightarrow> datetime list" where
  "keep_recent now timestamps = filter (\<lambda>ts. seconds (dt_sub now ts) < WINDOW) timestamps"

definition rate_limit :: "rate_store \<Rightarrow> string \<Rightarrow> datetime \<Rightarrow> (http_error + unit) \<times> rate_store" where
  "rate_limit store ip now =
     (let timestamps = dd_list store ip;
          store1 = store(ip \<mapsto> keep_recent now timestamps)
      in if RATE_LIMIT \<le> length (dd_list store1 ip)
         then (Inl HTTP_429_Too_many_requests, store1)
         else (Inr (), store1(ip \<mapsto> dd_list store1 ip @ [now])))"

subsection \<open>Python values, dictionaries and their text\<close>

text \<open>
  The values that reach a response or the cache: booleans, integers, strings, and
  dictionaries with string keys. A \<^verbatim>\<open>dict\<close> keeps its keys in insertion order, which
  \<^verbatim>\<open>str\<close> prints, so it is an association list with distinct keys; assigning to a
  key that is present replaces its value in place, assigning to a new key appends.
\<close>

datatype pyval =
    PBool bool
  | PInt int
  | PStr string
  | PDict "(string \<times> pyval) list"

primrec dict_set :: "('k \<times> 'v) list \<Rightarrow> 'k \<Rightarrow> 'v \<Rightarrow> ('k \<times> 'v) list" where
  "dict_set [] k v = [(k, v)]"
| "dict_set (p # ps) k v = (if fst p = k then (k, v) # ps else p # dict_set ps k v)"

definition dict_get :: "('k \<times> 'v) list \<Rightarrow> 'k \<Rightarrow> 'v option" where
  "dict_get d k = map_of d k"

text \<open>The display \<^verbatim>\<open>{"cached": b, **d}\<close>: the items of \<open>d\<close> are assigned in order
  into the dictionary that holds \<^verbatim>\<open>cached\<close>.\<close>

definition dict_unpack_into :: "('k \<times> 'v) list \<Rightarrow> ('k \<times> 'v) list \<Rightarrow> ('k \<times> 'v) list" where
  "dict_unpack_into base d = foldl (\<lambda>acc kv. dict_set acc (fst kv) (snd kv)) base d"

text \<open>Decimal numerals, as \<^verbatim>\<open>str\<close> and the format specifiers print an integer.\<close>

definition digit_char :: "nat \<Rightarrow> char" where
  "digit_char d = ''0123456789'' ! d"

fun digits :: "nat \<Rightarrow> string" where
  "digits n = (if n < 10 then [digit_char n] else digits (n div 10) @ [digit_char (n mod 10)])"

declare digits.simps [simp del]

definition str_int :: "int \<Rightarrow> string" where
  "str_int i = (if i < 0 then CHR ''-'' # digits (nat (- i)) else digits (nat i))"

text \<open>\<^verbatim>\<open>"%0wd" % n\<close> for a natural number: zeros on the left up to width \<open>w\<close>.\<close>

definition zero_pad :: "nat \<Rightarrow> nat \<Rightarrow> string" where
  "zero_pad w n = replicate (w - length (digits n)) (CHR ''0'') @ digits n"

text \<open>\<^verbatim>\<open>datetime.date()\<close> and \<^verbatim>\<open>date.isoformat()\<close>, which is
  \<^verbatim>\<open>"%04d-%02d-%02d" % (year, month, day)\<close>.\<close>

definition dt_date :: "datetime \<Rightarrow> date" where
  "dt_date t = \<lparr>year = year t, month = month t, day = day t\<rparr>"

definition isoformat :: "date \<Rightarrow> string" where
  "isoformat d = zero_pad 4 (year d) @ ''-'' @ zero_pad 2 (month d) @ ''-'' @ zero_pad 2 (day d)"

text \<open>
  \<^verbatim>\<open>repr\<close> of a string of ASCII characters: double quotes when the string holds a
  single quote and no double quote, single quotes otherwise; the quote and the backslash
  are escaped, and so are the control characters.
\<close>

definition hex_digit :: "nat \<Rightarrow> char" where
  "hex_digit d = ''0123456789abcdef'' ! d"

definition repr_char :: "char \<Rightarrow> char \<Rightarrow> string" where
  "repr_char q c =
     (if c = q \<or> c = CHR 0x5C then [CHR 0x5C, c]
      else if c = CHR 0x09 then [CHR 0x5C, CHR ''t'']
      else if c = CHR 0x0A then [CHR 0x5C, CHR ''n'']
      else if c = CHR 0x0D then [CHR 0x5C, CHR ''r'']
      else if (of_char c :: nat) < 32 \<or> c = CHR 0x7F
        then [CHR 0x5C, CHR ''x'', hex_digit (of_char c div 16), hex_digit (of_char c mod 16)]
      else [c])"

definition repr_str :: "string \<Rightarrow> string" where
  "repr_str s =
     (let q = (if CHR 0x27 \<in> set s \<and> CHR 0x22 \<notin> set s then CHR 0x22 else CHR 0x27)
      in q # concat (map (repr_char q) s) @ [q])"

fun join_items :: "string list \<Rightarrow> string" where
  "join_items [] = []"
| "join_items [x] = x"
| "join_items (x # y # ys) = x @ '', '' @ join_items (y # ys)"

fun py_repr :: "pyval \<Rightarrow> string" where
  "py_repr (PBool b) = (if b then ''True'' else ''False'')"
| "py_repr (PInt i) = str_int i"
| "py_repr (PStr s) = repr_str s"
| "py_repr (PDict kvs) =
     ''{'' @ join_items (map (\<lambda>kv. repr_str (fst kv) @ '': '' @ py_repr (snd kv)) kvs) @ ''}''"

text \<open>
  \<^verbatim>\<open>eval\<close> on the literal fragment: dictionary displays with string-literal keys,
  decimal integers, string literals without escape sequences, \<^verbatim>\<open>True\<close> and
  \<^verbatim>\<open>False\<close>. On such a text evaluation has no effect and yields the value read here.
  \<open>None\<close> stands for every other text: one that Python rejects, and one whose evaluation
  this fragment does not cover. The reader is a recursive descent with fuel; each call
  consumes a character before it recurses, so the length of the text is fuel enough.
\<close>

definition skip_ws :: "string \<Rightarrow> string" where
  "skip_ws s = dropWhile (\<lambda>c. c = CHR '' '') s"

definition is_digit :: "char \<Rightarrow> bool" where
  "is_digit c = (c \<in> set ''0123456789'')"

definition digit_val :: "char \<Rightarrow> nat" where
  "digit_val c = of_char c - 48"

definition int_of_digits :: "string \<Rightarrow> nat" where
  "int_of_digits ds = foldl (\<lambda>a c. 10 * a + digit_val c) 0 ds"

definition parse_nat :: "string \<Rightarrow> (nat \<times> string) option" where
  "parse_nat s =
     (let ds = takeWhile is_digit s; rest = dropWhile is_digit s
      in if ds = [] \<or> (1 < length ds \<and> hd ds = CHR ''0'') then None
         else Some (int_of_digits ds, rest))"

definition parse_int :: "string \<Rightarrow> (int \<times> string) option" where
  "parse_int s =
     (case s of
        [] \<Rightarrow> None
      | c # r \<Rightarrow>
          if c = CHR ''-'' then map_option (\<lambda>(n, rest). (- int n, rest)) (parse_nat r)
          else map_option (\<lambda>(n, rest). (int n, rest)) (parse_nat s))"

definition parse_str :: "string \<Rightarrow> (string \<times> string) option" where
  "parse_str s =
     (case s of
        [] \<Rightarrow> None
      | q # cs \<Rightarrow>
          if q = CHR 0x27 \<or> q = CHR 0x22 then
            (let body = takeWhile (\<lambda>c. c \<noteq> q) cs; rest = dropWhile (\<lambda>c. c \<noteq> q) cs
             in if rest = [] \<or> CHR 0x5C \<in> set body \<or> CHR 0x0A \<in> set body
                   \<or> (body = [] \<and> take 1 (tl rest) = [q])
                then None
                else Some (body, tl rest))
          else None)"

fun parse_value :: "nat \<Rightarrow> string \<Rightarrow> (pyval \<times> string) option"
  and parse_items :: "nat \<Rightarrow> (string \<times> pyval) list \<Rightarrow> string \<Rightarrow> (pyval \<times> string) option"
where
  "parse_value 0 s = None"
| "parse_value (Suc n) s =
     (case skip_ws s of
        [] \<Rightarrow> None
      | c # r \<Rightarrow>
          if c = CHR ''{'' then
            (case skip_ws r of
               [] \<Rightarrow> None
             | c' # r' \<Rightarrow> if c' = CHR ''}'' then Some (PDict [], r') else parse_items n [] r)
          else if c = CHR 0x27 \<or> c = CHR 0x22
            then map_option (\<lambda>(x, rest). (PStr x, rest)) (parse_str (c # r))
          else if is_digit c \<or> c = CHR ''-''
            then map_option (\<lambda>(i, rest). (PInt i, rest)) (parse_int (c # r))
          else if take 4 (c # r) = ''True'' then Some (PBool True, drop 4 (c # r))
          else if take 5 (c # r) = ''False'' then Some (PBool False, drop 5 (c # r))
          else None)"
| "parse_items 0 acc s = None"
| "parse_items (Suc n) acc s =
     (case parse_str (skip_ws s) of
        None \<Rightarrow> None
      | Some (k, r1) \<Rightarrow>
          (case skip_ws r1 of
             [] \<Rightarrow> None
           | c # r2 \<Rightarrow>
               if c = CHR '':'' then
                 (case parse_value n r2 of
                    None \<Rightarrow> None
                  | Some (v, r3) \<Rightarrow>
                      (case skip_ws r3 of
                         [] \<Rightarrow> None
                       | d # r4 \<Rightarrow>
                           if d = CHR '','' then parse_items n (dict_set acc k v) r4
                           else if d = CHR ''}'' then Some (PDict (dict_set acc k v), r4)
                           else None))
               else None))"

definition py_eval :: "string \<Rightarrow> pyval option" where
  "py_eval s =
     (case parse_value (Suc (length s)) s of
        None \<Rightarrow> None
      | Some (v, rest) \<Rightarrow> if skip_ws rest = [] then Some v else None)"

subsection \<open>The cache\<close>

text \<open>
  Modelled from the spec: the cache server behind \<^verbatim>\<open>redis_client\<close> is not part of the
  source. Section 4.4 gives its contract: an entry holds a value and the instant
  \<open>expiresAt\<close>; \<open>get\<close> treats an entry whose \<open>expiresAt \<le> now\<close> as absent; \<open>put\<close>
  overwrites the entry with \<open>expiresAt = now + ttlSeconds\<close>; \<open>invalidate\<close> removes the
  entry and is a no-op on an absent key. Instants of the cache's clock are counted in
  microseconds; with \<^verbatim>\<open>decode_responses=True\<close> the values are strings.
\<close>

type_synonym cache = "string \<rightharpoonup> string \<times> int"

definition redis_get :: "cache \<Rightarrow> string \<Rightarrow> int \<Rightarrow> string option" where
  "redis_get c key now =
     (case c key of
        None \<Rightarrow> None
      | Some (v, expiresAt) \<Rightarrow> if expiresAt \<le> now then None else Some v)"

definition redis_setex :: "cache \<Rightarrow> string \<Rightarrow> int \<Rightarrow> string \<Rightarrow> int \<Rightarrow> cache" where
  "redis_setex c key ttlSeconds v now = c(key \<mapsto> (v, now + ttlSeconds * 1000000))"

definition redis_delete :: "cache \<Rightarrow> string \<Rightarrow> cache" where
  "redis_delete c key = c(key := None)"

subsection \<open>The state and the two handlers\<close>

text \<open>
  A logged view is the dictionary \<^verbatim>\<open>{"ip": ip, "time": now}\<close>, two fixed keys. Of a
  registered medium only its presence in \<^verbatim>\<open>media_db\<close> is read here. The handlers run
  after the dependency \<^verbatim>\<open>get_current_user\<close> has accepted the token; what is modelled
  is the body of each handler, one request at a time.
\<close>

record view =
  ip :: string
  time :: datetime

type_synonym media = "string \<times> string \<times> string"

record state =
  media_db :: "int \<rightharpoonup> media"
  views_db :: "int \<rightharpoonup> view list"
  rate_limit_store :: rate_store
  redis :: cache

definition cache_key :: "int \<Rightarrow> string" where
  "cache_key media_id = ''analytics:'' @ str_int media_id"

text \<open>
  \<^verbatim>\<open>log_view\<close>: the rate limiter runs first, on the caller's address and its own
  reading of the clock \<open>now_rl\<close>; then the registry is consulted; then the view is
  appended with a second reading \<open>now\<close>, and the cached summary is deleted.
\<close>

definition log_view ::
  "state \<Rightarrow> int \<Rightarrow> string \<Rightarrow> datetime \<Rightarrow> datetime \<Rightarrow> (http_error + string) \<times> state" where
  "log_view s media_id host now_rl now =
     (case rate_limit (rate_limit_store s) host now_rl of
        (Inl e, store') \<Rightarrow> (Inl e, s\<lparr>rate_limit_store := store'\<rparr>)
      | (Inr _, store') \<Rightarrow>
          (let s1 = s\<lparr>rate_limit_store := store'\<rparr>
           in if media_db s1 media_id = None then (Inl HTTP_404_Media_not_found, s1)
              else
                (let s2 = s1\<lparr>views_db := (views_db s1)(media_id \<mapsto>
                            dd_list (views_db s1) media_id @ [\<lparr>ip = host, time = now\<rparr>])\<rparr>;
                     s3 = s2\<lparr>redis := redis_delete (redis s2) (cache_key media_id)\<rparr>
                 in (Inr ''View logged'', s3))))"

text \<open>The aggregation, lines 135 to 147 of the source, as a function of the views.\<close>

definition incr_day :: "(string \<times> int) list \<Rightarrow> string \<Rightarrow> (string \<times> int) list" where
  "incr_day d k = dict_set d k ((case map_of d k of None \<Rightarrow> 0 | Some n \<Rightarrow> n) + 1)"

fun count_days :: "(string \<times> int) list \<Rightarrow> view list \<Rightarrow> (string \<times> int) list" where
  "count_days d [] = d"
| "count_days d (v # vs) = count_days (incr_day d (isoformat (dt_date (time v)))) vs"

definition total_views :: "view list \<Rightarrow> int" where
  "total_views views = int (length views)"

definition unique_ips :: "view list \<Rightarrow> int" where
  "unique_ips views = int (card (set (map ip views)))"

definition views_per_day :: "view list \<Rightarrow> (string \<times> int) list" where
  "views_per_day views = count_days [] views"

definition analytics :: "view list \<Rightarrow> (string \<times> pyval) list" where
  "analytics views =
     [(''total_views'', PInt (total_views views)),
      (''unique_ips'', PInt (unique_ips views)),
      (''views_per_day'', PDict (map (\<lambda>kn. (fst kn, PInt (snd kn))) (views_per_day views)))]"

text \<open>
  \<^verbatim>\<open>get_analytics\<close>: \<open>t_get\<close> and \<open>t_set\<close> are the instants of the cache's clock at
  the \<^verbatim>\<open>get\<close> and at the \<^verbatim>\<open>setex\<close>. \<^verbatim>\<open>if cached:\<close> takes an absent entry and an
  empty text alike as a miss. Reading \<^verbatim>\<open>views_db[media_id]\<close> enters a missing key
  with the empty list.
\<close>

definition get_analytics ::
  "state \<Rightarrow> int \<Rightarrow> int \<Rightarrow> int \<Rightarrow> (http_error + (string \<times> pyval) list) \<times> state" where
  "get_analytics s media_id t_get t_set =
     (if media_db s media_id = None then (Inl HTTP_404_Media_not_found, s)
      else
        (case (case redis_get (redis s) (cache_key media_id) t_get of
                 None \<Rightarrow> None
               | Some txt \<Rightarrow> if txt = [] then None else Some txt) of
           Some cached \<Rightarrow>
             (case py_eval cached of
                None \<Rightarrow> (Inl Eval_outside_literals, s)
              | Some (PDict d) \<Rightarrow> (Inr (dict_unpack_into [(''cached'', PBool True)] d), s)
              | Some _ \<Rightarrow> (Inl TypeError_not_a_mapping, s))
         | None \<Rightarrow>
             (let views = dd_list (views_db s) media_id;
                  s1 = s\<lparr>views_db := (views_db s)(media_id \<mapsto> views)\<rparr>;
                  s2 = s1\<lparr>redis := redis_setex (redis s1) (cache_key media_id) 60
                              (py_repr (PDict (analytics views))) t_set\<rparr>
              in (Inr (dict_unpack_into [(''cached'', PBool False)] (analytics views)), s2))))"

subsection \<open>Notions used in the statements\<close>

text \<open>The time elapsed from \<open>ts\<close> to \<open>now\<close>, in microseconds.\<close>

definition elapsed :: "datetime \<Rightarrow> datetime \<Rightarrow> int" where
  "elapsed now ts = total_microseconds (dt_sub now ts)"

text \<open>The key under which a view is counted, and the number of views under a key.\<close>

definition day_key :: "view \<Rightarrow> string" where
  "day_key v = isoformat (dt_date (time v))"

definition views_on :: "string \<Rightarrow> view list \<Rightarrow> nat" where
  "views_on k views = length (filter (\<lambda>v. day_key v = k) views)"

text \<open>
  \<open>k\<close> is the text \<^verbatim>\<open>YYYY-MM-DD\<close> of the year \<open>y\<close>, the month \<open>m\<close> and the
  day \<open>d\<close>: ten characters, digits around two hyphens, that read back as the numbers.
\<close>

definition iso_date_text :: "nat \<Rightarrow> nat \<Rightarrow> nat \<Rightarrow> string \<Rightarrow> bool" where
  "iso_date_text y m d k =
     (length k = 10 \<and> k ! 4 = CHR ''-'' \<and> k ! 7 = CHR ''-'' \<and>
      list_all is_digit (take 4 k @ take 2 (drop 5 k) @ drop 8 k) \<and>
      int_of_digits (take 4 k) = y \<and> int_of_digits (take 2 (drop 5 k)) = m \<and>
      int_of_digits (drop 8 k) = d)"

text \<open>A text after which a numeral ends: empty, or starting with a character that is
  no digit.\<close>

definition stops :: "string \<Rightarrow> bool" where
  "stops rest = (case rest of [] \<Rightarrow> True | c # _ \<Rightarrow> \<not> is_digit c)"

text \<open>Characters that \<^verbatim>\<open>repr\<close> prints as they are, between single quotes; a key
  made of them, and not empty, is read back by \<open>parse_str\<close>.\<close>

definition plain :: "char \<Rightarrow> bool" where
  "plain c = (c \<noteq> CHR 0x27 \<and> c \<noteq> CHR 0x22 \<and> c \<noteq> CHR 0x5C \<and> 32 \<le> (of_char c :: nat) \<and> c \<noteq> CHR 0x7F)"

definition good_key :: "string \<Rightarrow> bool" where
  "good_key k = (k \<noteq> [] \<and> (\<forall>c\<in>set k. plain c))"

text \<open>An item of the dictionary of days, as printed and as a Python value.\<close>

definition item_text :: "string \<times> int \<Rightarrow> string" where
  "item_text kn = repr_str (fst kn) @ '': '' @ str_int (snd kn)"

definition wrap_int :: "string \<times> int \<Rightarrow> string \<times> pyval" where
  "wrap_int kn = (fst kn, PInt (snd kn))"

text \<open>
  What \<^verbatim>\<open>if cached:\<close> takes as a miss at the instant \<open>t\<close>. A text that
  \<^verbatim>\<open>get_analytics\<close> writes, and a cache that holds such texts only: the handlers
  keep it so, and the empty cache is one.
\<close>

definition cache_miss :: "state \<Rightarrow> int \<Rightarrow> int \<Rightarrow> bool" where
  "cache_miss s media_id t =
     (case redis_get (redis s) (cache_key media_id) t of None \<Rightarrow> True | Some txt \<Rightarrow> txt = [])"

definition written_text :: "string \<Rightarrow> bool" where
  "written_text txt = (\<exists>views. txt = py_repr (PDict (analytics views)))"

definition cache_written :: "state \<Rightarrow> bool" where
  "cache_written s = (\<forall>k txt e. redis s k = Some (txt, e) \<longrightarrow> written_text txt)"

subsection \<open>Concrete inputs\<close>

text \<open>Instants of the first two days of 2024, a client that made five requests within
  five seconds of the first day, and a registry that holds the medium 42.\<close>

definition jan1 :: "nat \<Rightarrow> datetime" where
  "jan1 s = \<lparr>year = 2024, month = 1, day = 1, hour = 0, minute = 0, second = s, microsecond = 0\<rparr>"

definition jan2 :: "nat \<Rightarrow> datetime" where
  "jan2 s = \<lparr>year = 2024, month = 1, day = 2, hour = 0, minute = 0, second = s, microsecond = 0\<rparr>"

definition five_requests :: "datetime list" where
  "five_requests = [jan1 10, jan1 11, jan1 12, jan1 13, jan1 14]"

definition registry_42 :: state where
  "registry_42 =
     \<lparr>media_db = [42 \<mapsto> (''clip'', ''video'', ''https://cdn.example/clip.mp4'')],
      views_db = Map.empty, rate_limit_store = Map.empty, redis = Map.empty\<rparr>"

definition busy_client :: state where
  "busy_client = registry_42\<lparr>rate_limit_store := [''1.2.3.4'' \<mapsto> five_requests]\<rparr>"

text \<open>Three views by two clients on two days, and the same three in another order;
  a cache that holds summaries of the media 42 and 7, both live until the instant 60 s.\<close>

definition three_views :: "view list" where
  "three_views =
     [\<lparr>ip = ''1.2.3.4'', time = jan1 10\<rparr>, \<lparr>ip = ''5.6.7.8'', time = jan1 11\<rparr>,
      \<lparr>ip = ''1.2.3.4'', time = jan2 20\<rparr>]"

definition three_views_shuffled :: "view list" where
  "three_views_shuffled =
     [\<lparr>ip = ''1.2.3.4'', time = jan2 20\<rparr>, \<lparr>ip = ''1.2.3.4'', time = jan1 10\<rparr>,
      \<lparr>ip = ''5.6.7.8'', time = jan1 11\<rparr>]"

definition warm_cache :: state where
  "warm_cache =
     registry_42\<lparr>redis := [cache_key 42 \<mapsto> (py_repr (PDict (analytics [])), 60000000),
                          cache_key 7 \<mapsto> (py_repr (PDict (analytics [])), 60000000)]\<rparr>"

section \<open>Auxiliary facts\<close>

subsection \<open>Time differences and the rate limiter\<close>

lemma recompose:
  "m0' = m0 \<Longrightarrow> m1 * 1000000 + m0' = m \<Longrightarrow> q * 86400000000 + m = T \<Longrightarrow>
   (q * 86400 + m1) * 1000000 + m0 = (T::int)"
  by (simp add: algebra_simps)

lemma total_mk: "total_microseconds (mk_timedelta d s us) = (d * 86400 + s) * 1000000 + us"
proof -
  define T where "T = (d * 86400 + s) * 1000000 + us"
  have a: "(T mod 86400000000) mod 1000000 = T mod 1000000"
    by (simp add: mod_mod_cancel)
  have b: "(T mod 86400000000) div 1000000 * 1000000 + (T mod 86400000000) mod 1000000
             = T mod 86400000000"
    by simp
  have c: "T div 86400000000 * 86400000000 + T mod 86400000000 = T"
    by simp
  have "(T div 86400000000 * 86400 + (T mod 86400000000) div 1000000) * 1000000 + T mod 1000000 = T"
    using a b c by (rule recompose)
  then show ?thesis
    by (simp add: total_microseconds_def mk_timedelta_def Let_def T_def)
qed

lemma seconds_within_day:
  assumes "0 \<le> elapsed now ts" "elapsed now ts < 86400000000"
  shows "seconds (dt_sub now ts) < WINDOW \<longleftrightarrow> elapsed now ts < WINDOW * 1000000"
proof -
  obtain d s us where D: "dt_sub now ts = mk_timedelta d s us"
    by (simp add: dt_sub_def)
  define T where "T = (d * 86400 + s) * 1000000 + us"
  have T: "elapsed now ts = T" by (simp add: elapsed_def D total_mk T_def)
  have "seconds (dt_sub now ts) = (T mod 86400000000) div 1000000"
    by (simp add: D mk_timedelta_def Let_def T_def)
  also have "\<dots> = T div 1000000" using assms T by simp
  finally show ?thesis using T by (simp add: WINDOW_def) arith
qed

lemma rate_limit_eq:
  "rate_limit store addr now =
     (if RATE_LIMIT \<le> length (keep_recent now (dd_list store addr))
      then (Inl HTTP_429_Too_many_requests, store(addr \<mapsto> keep_recent now (dd_list store addr)))
      else (Inr (), store(addr \<mapsto> keep_recent now (dd_list store addr) @ [now])))"
  by (simp add: rate_limit_def dd_list_def Let_def)

lemma log_view_unregistered:
  "media_db s media_id = None \<Longrightarrow>
   log_view s media_id host now_rl now =
     (if RATE_LIMIT \<le> length (keep_recent now_rl (dd_list (rate_limit_store s) host))
      then (Inl HTTP_429_Too_many_requests,
            s\<lparr>rate_limit_store := (rate_limit_store s)(host \<mapsto> keep_recent now_rl (dd_list (rate_limit_store s) host))\<rparr>)
      else (Inl HTTP_404_Media_not_found,
            s\<lparr>rate_limit_store := (rate_limit_store s)(host \<mapsto> keep_recent now_rl (dd_list (rate_limit_store s) host) @ [now_rl])\<rparr>))"
  by (simp add: log_view_def rate_limit_eq Let_def)

lemma log_view_ok:
  "log_view s media_id host now_rl now = (Inr msg, s') \<Longrightarrow>
     media_db s media_id \<noteq> None \<and> length (keep_recent now_rl (dd_list (rate_limit_store s) host)) < RATE_LIMIT \<and>
     s' = s\<lparr>rate_limit_store := (rate_limit_store s)(host \<mapsto> keep_recent now_rl (dd_list (rate_limit_store s) host) @ [now_rl]),
            views_db := (views_db s)(media_id \<mapsto> dd_list (views_db s) media_id @ [\<lparr>ip = host, time = now\<rparr>]),
            redis := redis_delete (redis s) (cache_key media_id)\<rparr>"
  by (auto simp: log_view_def rate_limit_eq Let_def split: if_splits)

subsection \<open>Decimal numerals\<close>

lemma below_ten: "d < 10 \<Longrightarrow> d \<in> {0, 1, 2, 3, 4, 5, 6, 7, 8, 9::nat}"
  by auto

lemma is_digit_digit_char: "d < 10 \<Longrightarrow> is_digit (digit_char d)"
  by (drule below_ten) (auto simp: digit_char_def is_digit_def)

lemma digit_val_digit_char: "d < 10 \<Longrightarrow> digit_val (digit_char d) = d"
  by (drule below_ten) (auto simp: digit_char_def digit_val_def)

lemma digit_char_zero: "d < 10 \<Longrightarrow> digit_char d = CHR ''0'' \<Longrightarrow> d = 0"
  by (drule below_ten) (auto simp: digit_char_def)

lemma digits_nonempty: "digits n \<noteq> []"
  by (subst digits.simps) simp

lemma digits_all_digit: "c \<in> set (digits n) \<Longrightarrow> is_digit c"
proof (induction n rule: digits.induct)
  case (1 n)
  show ?case
  proof (cases "n < 10")
    case True
    with "1.prems" show ?thesis
      by (subst (asm) digits.simps) (simp add: is_digit_digit_char)
  next
    case False
    with "1.prems" have "c \<in> set (digits (n div 10)) \<or> c = digit_char (n mod 10)"
      by (subst (asm) digits.simps) auto
    with False "1.IH" show ?thesis
      by (auto simp: is_digit_digit_char)
  qed
qed

lemma int_of_digits_snoc: "int_of_digits (ds @ [c]) = 10 * int_of_digits ds + digit_val c"
  by (simp add: int_of_digits_def)

lemma int_of_digits_digits: "int_of_digits (digits n) = n"
proof (induction n rule: digits.induct)
  case (1 n)
  show ?case
  proof (cases "n < 10")
    case True
    then show ?thesis
      by (subst digits.simps) (simp add: int_of_digits_def digit_val_digit_char)
  next
    case False
    with "1.IH" have "int_of_digits (digits (n div 10)) = n div 10" by simp
    with False show ?thesis
      by (subst digits.simps) (simp add: int_of_digits_snoc digit_val_digit_char)
  qed
qed

lemma hd_digits_nonzero: "0 < n \<Longrightarrow> hd (digits n) \<noteq> CHR ''0''"
proof (induction n rule: digits.induct)
  case (1 n)
  show ?case
  proof (cases "n < 10")
    case True
    with "1.prems" show ?thesis
      by (subst digits.simps) (auto dest: digit_char_zero)
  next
    case False
    then have "0 < n div 10" by simp
    with False "1.IH" have "hd (digits (n div 10)) \<noteq> CHR ''0''" by simp
    with False show ?thesis
      by (subst digits.simps) (simp add: digits_nonempty)
  qed
qed

lemma digits_zero: "digits 0 = ''0''"
  by (subst digits.simps) (simp add: digit_char_def)

lemma no_leading_zero: "\<not> (1 < length (digits n) \<and> hd (digits n) = CHR ''0'')"
  by (cases "n = 0") (auto simp: digits_zero hd_digits_nonzero)

lemma takeWhile_digits: "stops rest \<Longrightarrow> takeWhile is_digit (digits n @ rest) = digits n"
  by (cases rest) (auto simp: stops_def digits_all_digit)

lemma dropWhile_digits: "stops rest \<Longrightarrow> dropWhile is_digit (digits n @ rest) = rest"
  by (cases rest) (auto simp: stops_def digits_all_digit)

lemma parse_nat_digits: "stops rest \<Longrightarrow> parse_nat (digits n @ rest) = Some (n, rest)"
  using no_leading_zero [of n]
  by (simp add: parse_nat_def Let_def takeWhile_digits dropWhile_digits digits_nonempty
      int_of_digits_digits)

lemma hd_digits_not_minus: "hd (digits n) \<noteq> CHR ''-''"
  using digits_all_digit [of "hd (digits n)" n] digits_nonempty [of n]
  by (auto simp: is_digit_def)

lemma parse_int_str_int: "stops rest \<Longrightarrow> parse_int (str_int i @ rest) = Some (i, rest)"
proof (cases "i < 0")
  case True
  assume "stops rest"
  with True show ?thesis
    by (simp add: parse_int_def str_int_def parse_nat_digits)
next
  case False
  assume st: "stops rest"
  obtain c cs where dc: "digits (nat i) = c # cs"
    using digits_nonempty [of "nat i"] by (cases "digits (nat i)") auto
  with hd_digits_not_minus [of "nat i"] have "c \<noteq> CHR ''-''" by simp
  moreover have "parse_nat (c # cs @ rest) = Some (nat i, rest)"
    using parse_nat_digits [OF st, of "nat i"] dc by simp
  ultimately show ?thesis using False dc
    by (simp add: parse_int_def str_int_def)
qed

lemma str_int_inj: "str_int i = str_int j \<Longrightarrow> i = j"
proof -
  assume "str_int i = str_int j"
  moreover have "parse_int (str_int i @ []) = Some (i, [])" "parse_int (str_int j @ []) = Some (j, [])"
    by (rule parse_int_str_int, simp add: stops_def)+
  ultimately show ?thesis by simp
qed

lemma cache_key_inj: "cache_key r = cache_key r' \<Longrightarrow> r = r'"
  by (simp add: cache_key_def str_int_inj)

subsection \<open>Dictionaries and the aggregation\<close>

lemma map_of_dict_set: "map_of (dict_set d k v) = (map_of d)(k \<mapsto> v)"
  by (induction d) (auto simp: fun_eq_iff)

lemma keys_dict_set: "fst ` set (dict_set d k v) = insert k (fst ` set d)"
  by (induction d) auto

lemma distinct_dict_set: "distinct (map fst d) \<Longrightarrow> distinct (map fst (dict_set d k v))"
  by (induction d) (auto simp: keys_dict_set)

lemma dict_set_fresh: "k \<notin> fst ` set d \<Longrightarrow> dict_set d k v = d @ [(k, v)]"
  by (induction d) auto

lemma map_of_incr_day:
  "map_of (incr_day d k) = (map_of d)(k \<mapsto> (case map_of d k of None \<Rightarrow> 0 | Some n \<Rightarrow> n) + 1)"
  by (simp add: incr_day_def map_of_dict_set)

lemma distinct_incr_day: "distinct (map fst d) \<Longrightarrow> distinct (map fst (incr_day d k))"
  by (simp add: incr_day_def distinct_dict_set)

lemma map_of_count_days:
  "map_of (count_days d views) k =
     (if views_on k views = 0 then map_of d k
      else Some ((case map_of d k of None \<Rightarrow> 0 | Some n \<Rightarrow> n) + int (views_on k views)))"
proof (induction views arbitrary: d)
  case Nil
  then show ?case by (simp add: views_on_def)
next
  case (Cons v views)
  show ?case
    by (simp add: Cons.IH map_of_incr_day views_on_def day_key_def)
qed

lemma distinct_count_days: "distinct (map fst d) \<Longrightarrow> distinct (map fst (count_days d views))"
  by (induction views arbitrary: d) (auto simp: distinct_incr_day)

lemma map_of_views_per_day:
  "map_of (views_per_day views) k =
     (if views_on k views = 0 then None else Some (int (views_on k views)))"
  by (simp add: views_per_day_def map_of_count_days)

lemma distinct_views_per_day: "distinct (map fst (views_per_day views))"
  by (simp add: views_per_day_def distinct_count_days)

lemma views_on_mset: "views_on k views = size (filter_mset (\<lambda>v. day_key v = k) (mset views))"
  unfolding views_on_def by (metis mset_filter size_mset)

lemma perm_total: "mset views = mset views' \<Longrightarrow> total_views views = total_views views'"
  using mset_eq_length [of views views'] by (simp add: total_views_def)

lemma perm_unique: "mset views = mset views' \<Longrightarrow> unique_ips views = unique_ips views'"
  using mset_eq_setD [of views views'] by (simp add: unique_ips_def)

lemma perm_days: "mset views = mset views' \<Longrightarrow> map_of (views_per_day views) = map_of (views_per_day views')"
  by (rule ext) (simp add: map_of_views_per_day views_on_mset)

subsection \<open>ISO dates\<close>

lemma zero_is_digit: "is_digit (CHR ''0'')"
  by (simp add: is_digit_def)

lemma zero_pad_all_digit: "c \<in> set (zero_pad w n) \<Longrightarrow> is_digit c"
  unfolding zero_pad_def using digits_all_digit [of c n] zero_is_digit
  by (cases "c = CHR ''0''") auto

lemma int_of_digits_zeros: "int_of_digits (replicate k (CHR ''0'') @ ds) = int_of_digits ds"
  by (induction k) (simp_all add: int_of_digits_def digit_val_def)

lemma int_of_zero_pad: "int_of_digits (zero_pad w n) = n"
  by (simp add: zero_pad_def int_of_digits_zeros int_of_digits_digits)

lemma zero_pad_inj: "zero_pad w n = zero_pad w' n' \<Longrightarrow> n = n'"
  using int_of_zero_pad [of w n] int_of_zero_pad [of w' n'] by simp

lemma dash_not_digit: "\<not> is_digit (CHR ''-'')"
  by (simp add: is_digit_def)

lemma take_zero_pad: "takeWhile is_digit (zero_pad w n @ CHR ''-'' # rest) = zero_pad w n"
  by (simp add: zero_pad_all_digit dash_not_digit)

lemma drop_zero_pad: "dropWhile is_digit (zero_pad w n @ CHR ''-'' # rest) = CHR ''-'' # rest"
  by (simp add: zero_pad_all_digit dash_not_digit)

lemma isoformat_inj:
  assumes "isoformat d = isoformat d'"
  shows "d = d'"
proof -
  let ?r = "\<lambda>d::date. zero_pad 2 (month d) @ CHR ''-'' # zero_pad 2 (day d)"
  from assms have e: "zero_pad 4 (year d) @ CHR ''-'' # ?r d = zero_pad 4 (year d') @ CHR ''-'' # ?r d'"
    by (simp add: isoformat_def)
  from arg_cong [OF e, of "takeWhile is_digit"] have y: "zero_pad 4 (year d) = zero_pad 4 (year d')"
    by (simp only: take_zero_pad)
  from arg_cong [OF e, of "dropWhile is_digit"] have e2: "?r d = ?r d'"
    by (simp only: drop_zero_pad list.inject)
  from arg_cong [OF e2, of "takeWhile is_digit"] have m: "zero_pad 2 (month d) = zero_pad 2 (month d')"
    by (simp only: take_zero_pad)
  from arg_cong [OF e2, of "dropWhile is_digit"] have dd: "zero_pad 2 (day d) = zero_pad 2 (day d')"
    by (simp only: drop_zero_pad list.inject)
  from zero_pad_inj [OF y] zero_pad_inj [OF m] zero_pad_inj [OF dd] show ?thesis
    by (intro date.equality) simp_all
qed

lemma views_on_date:
  "views_on (isoformat dd) views = length (filter (\<lambda>v. dt_date (time v) = dd) views)"
proof -
  have "(day_key v = isoformat dd) = (dt_date (time v) = dd)" for v
    by (auto simp: day_key_def dest: isoformat_inj)
  then show ?thesis by (simp add: views_on_def)
qed

subsection \<open>Reading back what \<^verbatim>\<open>str\<close> printed\<close>

lemma plain_not_quote: "plain c \<Longrightarrow> c \<noteq> CHR 0x27 \<and> c \<noteq> CHR 0x22 \<and> c \<noteq> CHR 0x5C \<and> c \<noteq> CHR 0x0A"
  by (auto simp: plain_def)

lemma digit_plain: "is_digit c \<Longrightarrow> plain c"
  by (auto simp: is_digit_def plain_def)

lemma plain_repr_char:
  assumes "plain c"
  shows "repr_char (CHR 0x27) c = [c]"
proof -
  from assms have a: "c \<noteq> CHR 0x27" "c \<noteq> CHR 0x5C" "c \<noteq> CHR 0x7F"
    and b: "\<not> (of_char c :: nat) < 32"
    by (simp_all add: plain_def)
  have c: "c \<noteq> CHR 0x09" "c \<noteq> CHR 0x0A" "c \<noteq> CHR 0x0D"
    using b by auto
  show ?thesis
    unfolding repr_char_def by (simp only: a b c if_False simp_thms)
qed

lemma concat_repr_plain: "\<forall>c\<in>set s. plain c \<Longrightarrow> concat (map (repr_char (CHR 0x27)) s) = s"
  by (induction s) (simp_all add: plain_repr_char)

lemma repr_str_plain:
  assumes "\<forall>c\<in>set s. plain c"
  shows "repr_str s = CHR 0x27 # s @ [CHR 0x27]"
proof -
  from assms have "CHR 0x27 \<notin> set s" using plain_not_quote by blast
  with assms show ?thesis by (simp add: repr_str_def Let_def concat_repr_plain)
qed

lemma parse_str_plain:
  assumes "s \<noteq> []" "\<forall>c\<in>set s. plain c"
  shows "parse_str (CHR 0x27 # s @ CHR 0x27 # rest) = Some (s, rest)"
proof -
  have nq: "\<forall>c\<in>set s. c \<noteq> CHR 0x27" using assms(2) plain_not_quote by blast
  then have t: "takeWhile (\<lambda>c. c \<noteq> CHR 0x27) (s @ CHR 0x27 # rest) = s"
    and d: "dropWhile (\<lambda>c. c \<noteq> CHR 0x27) (s @ CHR 0x27 # rest) = CHR 0x27 # rest"
    by simp_all
  have "CHR 0x5C \<notin> set s" "CHR 0x0A \<notin> set s" using assms(2) plain_not_quote by blast+
  with assms(1) show ?thesis
    by (simp add: parse_str_def Let_def t d)
qed

lemma parse_str_repr:
  assumes "s \<noteq> []" "\<forall>c\<in>set s. plain c"
  shows "parse_str (repr_str s @ rest) = Some (s, rest)"
  using parse_str_plain [OF assms, of rest] by (simp add: repr_str_plain [OF assms(2)])

lemma dash_plain: "plain (CHR ''-'')"
  by (simp add: plain_def)

lemma isoformat_plain:
  assumes "c \<in> set (isoformat d)"
  shows "plain c"
proof -
  from assms have "c = CHR ''-'' \<or> (\<exists>w n. c \<in> set (zero_pad w n))"
    by (auto simp: isoformat_def)
  then show ?thesis
    using dash_plain zero_pad_all_digit digit_plain by blast
qed

lemma isoformat_nonempty: "isoformat d \<noteq> []"
  by (simp add: isoformat_def)

lemma skip_ws_space: "skip_ws (CHR '' '' # s) = skip_ws s"
  by (simp add: skip_ws_def)

lemma skip_ws_other: "c \<noteq> CHR '' '' \<Longrightarrow> skip_ws (c # s) = c # s"
  by (simp add: skip_ws_def)

lemma parse_items_space: "parse_items n acc (CHR '' '' # s) = parse_items n acc s"
  by (cases n) (simp_all add: skip_ws_space)

lemma parse_value_space: "parse_value n (CHR '' '' # s) = parse_value n s"
  by (cases n) (simp_all add: skip_ws_space)

lemma str_int_head: "\<exists>c cs. str_int i = c # cs \<and> (is_digit c \<or> c = CHR ''-'')"
proof (cases "i < 0")
  case True
  then show ?thesis by (simp add: str_int_def)
next
  case False
  obtain c cs where dc: "digits (nat i) = c # cs"
    using digits_nonempty [of "nat i"] by (cases "digits (nat i)") auto
  then have "is_digit c" using digits_all_digit [of c "nat i"] by simp
  with False dc show ?thesis by (simp add: str_int_def)
qed

lemma digit_or_minus_head:
  assumes "is_digit c \<or> c = CHR ''-''"
  shows "c \<noteq> CHR '' ''" "c \<noteq> CHR ''{''" "c \<noteq> CHR 0x27" "c \<noteq> CHR 0x22"
  using assms by (auto simp: is_digit_def)

lemma parse_value_int:
  assumes "stops rest"
  shows "parse_value (Suc n) (str_int i @ rest) = Some (PInt i, rest)"
proof -
  obtain c cs where h: "str_int i = c # cs" "is_digit c \<or> c = CHR ''-''"
    using str_int_head by blast
  note ne = digit_or_minus_head [OF h(2)]
  have "parse_int (c # cs @ rest) = Some (i, rest)"
    using parse_int_str_int [OF assms, of i] h(1) by simp
  then show ?thesis
    using h(2) by (simp add: h(1) skip_ws_other ne)
qed

lemma stops_comma: "stops (CHR '','' # s)" and stops_brace: "stops (CHR ''}'' # s)"
  by (simp_all add: stops_def is_digit_def)

lemma quote_not_space: "skip_ws (repr_str k @ s) = repr_str k @ s"
  by (simp add: repr_str_def Let_def skip_ws_other)

lemma parse_items_ints:
  assumes "\<forall>x\<in>set (kn # kns). good_key (fst x)"
    and "distinct (map fst (kn # kns))"
    and "fst ` set acc \<inter> fst ` set (kn # kns) = {}"
    and "length kns < n"
  shows "parse_items (Suc n) acc (join_items (map item_text (kn # kns)) @ CHR ''}'' # rest)
           = Some (PDict (acc @ map wrap_int (kn # kns)), rest)"
  using assms
proof (induction kns arbitrary: kn acc n)
  case Nil
  obtain m where n: "n = Suc m" using Nil.prems(4) by (cases n) auto
  have g: "fst kn \<noteq> []" "\<forall>c\<in>set (fst kn). plain c"
    using Nil.prems(1) by (simp_all add: good_key_def)
  have fresh: "fst kn \<notin> fst ` set acc" using Nil.prems(3) by auto
  have ps: "parse_str (repr_str (fst kn) @ s) = Some (fst kn, s)" for s
    by (rule parse_str_repr [OF g])
  have pv: "parse_value n (CHR '' '' # str_int (snd kn) @ CHR ''}'' # rest) = Some (PInt (snd kn), CHR ''}'' # rest)"
    unfolding n parse_value_space by (rule parse_value_int [OF stops_brace])
  show ?case
    by (simp add: item_text_def quote_not_space ps skip_ws_other pv dict_set_fresh [OF fresh] wrap_int_def)
next
  case (Cons kn' kns)
  obtain m where n: "n = Suc m" using Cons.prems(4) by (cases n) auto
  have g: "fst kn \<noteq> []" "\<forall>c\<in>set (fst kn). plain c"
    using Cons.prems(1) by (simp_all add: good_key_def)
  have fresh: "fst kn \<notin> fst ` set acc" using Cons.prems(3) by auto
  have ps: "parse_str (repr_str (fst kn) @ s) = Some (fst kn, s)" for s
    by (rule parse_str_repr [OF g])
  define tail where "tail = join_items (map item_text (kn' # kns)) @ CHR ''}'' # rest"
  have pv: "parse_value n (CHR '' '' # str_int (snd kn) @ CHR '','' # CHR '' '' # tail)
              = Some (PInt (snd kn), CHR '','' # CHR '' '' # tail)"
    unfolding n parse_value_space by (rule parse_value_int [OF stops_comma])
  have ih: "parse_items n (acc @ [wrap_int kn]) tail
              = Some (PDict ((acc @ [wrap_int kn]) @ map wrap_int (kn' # kns)), rest)"
    unfolding n tail_def
  proof (rule Cons.IH)
    show "\<forall>x\<in>set (kn' # kns). good_key (fst x)" using Cons.prems(1) by simp
    show "distinct (map fst (kn' # kns))" using Cons.prems(2) by simp
    show "fst ` set (acc @ [wrap_int kn]) \<inter> fst ` set (kn' # kns) = {}"
      using Cons.prems(2,3) by (auto simp: wrap_int_def)
    show "length kns < m" using Cons.prems(4) n by simp
  qed
  have "parse_items (Suc n) acc (item_text kn @ CHR '','' # CHR '' '' # tail)
          = Some (PDict (acc @ map wrap_int (kn # kn' # kns)), rest)"
    using ih
    by (simp add: item_text_def quote_not_space ps skip_ws_other pv dict_set_fresh [OF fresh]
        parse_items_space wrap_int_def)
  then show ?case by (simp add: tail_def)
qed

lemma parse_items_step_comma:
  assumes "good_key k" "k \<notin> fst ` set acc"
    and "parse_value n (CHR '' '' # vtxt @ CHR '','' # CHR '' '' # tail) = Some (v, CHR '','' # CHR '' '' # tail)"
  shows "parse_items (Suc n) acc (repr_str k @ '': '' @ vtxt @ '', '' @ tail) = parse_items n (acc @ [(k, v)]) tail"
proof -
  have g: "k \<noteq> []" "\<forall>c\<in>set k. plain c" using assms(1) by (simp_all add: good_key_def)
  have ps: "parse_str (repr_str k @ s) = Some (k, s)" for s
    by (rule parse_str_repr [OF g])
  show ?thesis
    using assms(3)
    by (simp add: quote_not_space ps skip_ws_other dict_set_fresh [OF assms(2)] parse_items_space)
qed

lemma parse_items_step_last:
  assumes "good_key k" "k \<notin> fst ` set acc"
    and "parse_value n (CHR '' '' # vtxt @ CHR ''}'' # rest) = Some (v, CHR ''}'' # rest)"
  shows "parse_items (Suc n) acc (repr_str k @ '': '' @ vtxt @ CHR ''}'' # rest) = Some (PDict (acc @ [(k, v)]), rest)"
proof -
  have g: "k \<noteq> []" "\<forall>c\<in>set k. plain c" using assms(1) by (simp_all add: good_key_def)
  have ps: "parse_str (repr_str k @ s) = Some (k, s)" for s
    by (rule parse_str_repr [OF g])
  show ?thesis
    using assms(3)
    by (simp add: quote_not_space ps skip_ws_other dict_set_fresh [OF assms(2)])
qed

lemma repr_days: "py_repr (PDict (map wrap_int kns)) = CHR ''{'' # join_items (map item_text kns) @ ''}''"
proof -
  have "(\<lambda>kv. repr_str (fst kv) @ '': '' @ py_repr (snd kv)) \<circ> wrap_int = item_text"
    by (rule ext) (simp add: wrap_int_def item_text_def)
  then show ?thesis by simp
qed

lemma join_items_head:
  "\<exists>q cs. join_items (map item_text (kn # kns)) = q # cs \<and> q \<noteq> CHR '' '' \<and> q \<noteq> CHR ''}''"
  by (cases kns) (auto simp: item_text_def repr_str_def Let_def)

lemma parse_value_days:
  assumes "\<forall>x\<in>set kns. good_key (fst x)" "distinct (map fst kns)" "length kns \<le> n"
  shows "parse_value (Suc (Suc n)) (py_repr (PDict (map wrap_int kns)) @ rest) = Some (PDict (map wrap_int kns), rest)"
proof (cases kns)
  case Nil
  then show ?thesis by (simp add: skip_ws_other)
next
  case (Cons kn kns')
  obtain q cs where h: "join_items (map item_text (kn # kns')) = q # cs" "q \<noteq> CHR '' ''" "q \<noteq> CHR ''}''"
    using join_items_head by blast
  have "parse_items (Suc n) [] (join_items (map item_text (kn # kns')) @ CHR ''}'' # rest)
          = Some (PDict ([] @ map wrap_int (kn # kns')), rest)"
    using assms unfolding Cons by (intro parse_items_ints) simp_all
  then have pi: "parse_items (Suc n) [] (q # cs @ CHR ''}'' # rest) = Some (PDict (map wrap_int kns), rest)"
    unfolding h(1) Cons by (simp del: parse_items.simps)
  have "parse_value (Suc (Suc n)) (CHR ''{'' # q # cs @ CHR ''}'' # rest)
          = parse_items (Suc n) [] (q # cs @ CHR ''}'' # rest)"
    by (simp add: skip_ws_other h(2,3) del: parse_items.simps)
  with pi show ?thesis
    unfolding repr_days Cons h(1) by (simp del: parse_items.simps parse_value.simps)
qed

lemma keys_count_days: "fst ` set (count_days d views) = fst ` set d \<union> day_key ` set views"
  by (induction views arbitrary: d) (auto simp: incr_day_def keys_dict_set day_key_def)

lemma good_day_key: "good_key (isoformat d)"
  by (simp add: good_key_def isoformat_nonempty isoformat_plain)

lemma good_views_per_day: "x \<in> set (views_per_day views) \<Longrightarrow> good_key (fst x)"
proof -
  assume "x \<in> set (views_per_day views)"
  then have "fst x \<in> fst ` set (count_days [] views)" by (simp add: views_per_day_def)
  then show ?thesis by (auto simp: keys_count_days day_key_def good_day_key)
qed

lemma good_fixed_keys: "good_key ''total_views''" "good_key ''unique_ips''" "good_key ''views_per_day''"
  by (simp_all add: good_key_def plain_def)

lemma item_text_nonempty: "item_text kn \<noteq> []"
  by (simp add: item_text_def repr_str_def Let_def)

lemma length_join_nonempty: "\<forall>y\<in>set ys. y \<noteq> [] \<Longrightarrow> length ys \<le> length (join_items ys)"
proof (induction ys rule: join_items.induct)
  case 1
  then show ?case by simp
next
  case (2 x)
  then show ?case by (cases x) simp_all
next
  case (3 x y ys)
  then show ?case by simp
qed

lemma length_join_items: "length xs \<le> length (join_items (map item_text xs))"
proof -
  have "\<forall>y\<in>set (map item_text xs). y \<noteq> []" by (simp add: item_text_nonempty)
  from length_join_nonempty [OF this] show ?thesis by simp
qed

lemma analytics_text:
  "py_repr (PDict (analytics views)) =
     CHR ''{'' # repr_str ''total_views'' @ '': '' @ str_int (total_views views) @ '', '' @
       repr_str ''unique_ips'' @ '': '' @ str_int (unique_ips views) @ '', '' @
       repr_str ''views_per_day'' @ '': '' @ py_repr (PDict (map wrap_int (views_per_day views))) @ ''}''"
proof -
  have "(\<lambda>kn. (fst kn, PInt (snd kn))) = wrap_int" by (rule ext) (simp add: wrap_int_def)
  then show ?thesis by (simp add: analytics_def del: py_repr.simps(4)) (simp)
qed

lemma repr_str_head: "\<exists>q cs. repr_str k = q # cs \<and> q \<noteq> CHR '' '' \<and> q \<noteq> CHR ''}''"
  by (simp add: repr_str_def Let_def)

lemma parse_value_analytics:
  assumes "length (views_per_day views) \<le> n"
  shows "parse_value (Suc (Suc (Suc (Suc (Suc (Suc n)))))) (py_repr (PDict (analytics views)) @ rest)
           = Some (PDict (analytics views), rest)"
proof -
  define kns where "kns = views_per_day views"
  define t3 where "t3 = repr_str ''views_per_day'' @ '': '' @ py_repr (PDict (map wrap_int kns)) @ CHR ''}'' # rest"
  define t2 where "t2 = repr_str ''unique_ips'' @ '': '' @ str_int (unique_ips views) @ '', '' @ t3"
  define t1 where "t1 = repr_str ''total_views'' @ '': '' @ str_int (total_views views) @ '', '' @ t2"
  define a1 where "a1 = [(''total_views'', PInt (total_views views))]"
  define a2 where "a2 = a1 @ [(''unique_ips'', PInt (unique_ips views))]"
  have wrap: "(\<lambda>kn. (fst kn, PInt (snd kn))) = wrap_int" by (rule ext) (simp add: wrap_int_def)
  have res: "analytics views = a2 @ [(''views_per_day'', PDict (map wrap_int kns))]"
    by (simp add: analytics_def a2_def a1_def kns_def wrap)
  have text_eq: "py_repr (PDict (analytics views)) @ rest = CHR ''{'' # t1"
    unfolding analytics_text t1_def t2_def t3_def kns_def by simp
  obtain q cs where h: "t1 = q # cs" "q \<noteq> CHR '' ''" "q \<noteq> CHR ''}''"
    using repr_str_head [of "''total_views''"] unfolding t1_def by auto
  have s0: "parse_value (Suc (Suc (Suc (Suc (Suc (Suc n)))))) (CHR ''{'' # t1)
              = parse_items (Suc (Suc (Suc (Suc (Suc n))))) [] t1"
    unfolding h(1) by (simp add: skip_ws_other h(2,3) del: parse_items.simps)
  have s1: "parse_items (Suc (Suc (Suc (Suc (Suc n))))) [] t1 = parse_items (Suc (Suc (Suc (Suc n)))) ([] @ a1) t2"
    unfolding t1_def a1_def
    by (rule parse_items_step_comma)
       (simp_all only: good_fixed_keys parse_value_space parse_value_int [OF stops_comma] set_simps image_empty empty_iff not_False_eq_True)
  have s2: "parse_items (Suc (Suc (Suc (Suc n)))) a1 t2 = parse_items (Suc (Suc (Suc n))) a2 t3"
    unfolding t2_def a2_def
  proof (rule parse_items_step_comma)
    show "good_key ''unique_ips''" by (rule good_fixed_keys)
    show "''unique_ips'' \<notin> fst ` set a1" by (simp add: a1_def)
    show "parse_value (Suc (Suc (Suc n))) (CHR '' '' # str_int (unique_ips views) @ CHR '','' # CHR '' '' # t3)
            = Some (PInt (unique_ips views), CHR '','' # CHR '' '' # t3)"
      unfolding parse_value_space by (rule parse_value_int [OF stops_comma])
  qed
  have s3: "parse_items (Suc (Suc (Suc n))) a2 t3 = Some (PDict (a2 @ [(''views_per_day'', PDict (map wrap_int kns))]), rest)"
    unfolding t3_def
  proof (rule parse_items_step_last)
    show "good_key ''views_per_day''" by (rule good_fixed_keys)
    show "''views_per_day'' \<notin> fst ` set a2" by (simp add: a2_def a1_def)
    show "parse_value (Suc (Suc n)) (CHR '' '' # py_repr (PDict (map wrap_int kns)) @ CHR ''}'' # rest)
            = Some (PDict (map wrap_int kns), CHR ''}'' # rest)"
      unfolding parse_value_space
    proof (rule parse_value_days)
      show "\<forall>x\<in>set kns. good_key (fst x)" by (simp add: kns_def good_views_per_day)
      show "distinct (map fst kns)" by (simp add: kns_def distinct_views_per_day)
      show "length kns \<le> n" using assms by (simp add: kns_def)
    qed
  qed
  show ?thesis
    unfolding text_eq s0 s1 using s2 s3 by (simp only: append_Nil res)
qed

lemma length_analytics_text:
  "length (views_per_day views) + 5 \<le> length (py_repr (PDict (analytics views)))"
proof -
  have "length (views_per_day views) \<le> length (py_repr (PDict (map wrap_int (views_per_day views))))"
    using length_join_items [of "views_per_day views"] unfolding repr_days by simp
  then show ?thesis
    unfolding analytics_text by (simp add: repr_str_def Let_def del: py_repr.simps)
qed

lemma eval_analytics: "py_eval (py_repr (PDict (analytics views))) = Some (PDict (analytics views))"
proof -
  define n where "n = length (py_repr (PDict (analytics views))) - 5"
  have n: "length (py_repr (PDict (analytics views))) = Suc (Suc (Suc (Suc (Suc n))))"
    and le: "length (views_per_day views) \<le> n"
    using length_analytics_text [of views] unfolding n_def by arith+
  from parse_value_analytics [OF le, of "[]"] show ?thesis
    by (simp add: py_eval_def n skip_ws_def del: py_repr.simps parse_value.simps)
qed

subsection \<open>The handlers\<close>

lemma unpack_analytics:
  "dict_unpack_into [(''cached'', PBool b)] (analytics views) = (''cached'', PBool b) # analytics views"
  by (simp add: dict_unpack_into_def analytics_def)

lemma repr_dict_nonempty: "py_repr (PDict d) \<noteq> []"
  by simp

lemma get_analytics_unregistered:
  "media_db s media_id = None \<Longrightarrow> get_analytics s media_id t_get t_set = (Inl HTTP_404_Media_not_found, s)"
  by (simp add: get_analytics_def)

lemma get_analytics_miss:
  assumes "media_db s media_id \<noteq> None" "cache_miss s media_id t_get"
  shows "get_analytics s media_id t_get t_set =
           (Inr ((''cached'', PBool False) # analytics (dd_list (views_db s) media_id)),
            s\<lparr>views_db := (views_db s)(media_id \<mapsto> dd_list (views_db s) media_id),
              redis := redis_setex (redis s) (cache_key media_id) 60
                         (py_repr (PDict (analytics (dd_list (views_db s) media_id)))) t_set\<rparr>)"
  using assms
  by (auto simp: get_analytics_def cache_miss_def Let_def unpack_analytics
      simp del: py_repr.simps split: option.splits)

lemma get_analytics_hit:
  assumes "media_db s media_id \<noteq> None"
    and "redis_get (redis s) (cache_key media_id) t_get = Some (py_repr (PDict (analytics views)))"
  shows "get_analytics s media_id t_get t_set = (Inr ((''cached'', PBool True) # analytics views), s)"
  using assms repr_dict_nonempty [of "analytics views"]
  by (simp add: get_analytics_def eval_analytics unpack_analytics del: py_repr.simps)

lemma redis_get_setex:
  "redis_get (redis_setex c key ttl v now) key t = (if now + ttl * 1000000 \<le> t then None else Some v)"
  by (simp add: redis_get_def redis_setex_def)

lemma get_analytics_cases:
  "get_analytics s media_id t_get t_set = (res, s') \<Longrightarrow>
     s' = s \<or> s' = s\<lparr>views_db := (views_db s)(media_id \<mapsto> dd_list (views_db s) media_id),
              redis := redis_setex (redis s) (cache_key media_id) 60
                         (py_repr (PDict (analytics (dd_list (views_db s) media_id)))) t_set\<rparr>"
  by (auto simp: get_analytics_def Let_def simp del: py_repr.simps split: option.splits if_splits pyval.splits)

lemma get_analytics_result:
  "fst (get_analytics s media_id t_get t_set) \<noteq> Inl HTTP_429_Too_many_requests"
  by (auto simp: get_analytics_def Let_def simp del: py_repr.simps split: option.splits if_splits pyval.splits)

lemma dd_list_upd_same: "dd_list (m(k \<mapsto> dd_list m k)) k' = dd_list m k'"
  by (simp add: dd_list_def)

subsection \<open>The concrete instants\<close>

lemma toordinal_jan: "toordinal (jan1 k) = 738886" "toordinal (jan2 k) = 738887"
  by (simp_all add: jan1_def jan2_def toordinal_def ymd2ord_def
      days_before_year_def days_before_month_def DAYS_BEFORE_MONTH_def is_leap_def)

lemma clock_jan:
  "hour (jan1 k) = 0" "minute (jan1 k) = 0" "second (jan1 k) = k" "microsecond (jan1 k) = 0"
  "hour (jan2 k) = 0" "minute (jan2 k) = 0" "second (jan2 k) = k" "microsecond (jan2 k) = 0"
  by (simp_all add: jan1_def jan2_def)

lemma dt_sub_jan2_jan1: "dt_sub (jan2 j) (jan1 k) = mk_timedelta 1 (int j - int k) 0"
  by (simp add: dt_sub_def toordinal_jan clock_jan)

lemma dt_sub_jan1_jan1: "dt_sub (jan1 j) (jan1 k) = mk_timedelta 0 (int j - int k) 0"
  by (simp add: dt_sub_def toordinal_jan clock_jan)

lemma seconds_next_day:
  "seconds (dt_sub (jan2 20) (jan1 10)) = 10" "seconds (dt_sub (jan2 20) (jan1 11)) = 9"
  "seconds (dt_sub (jan2 20) (jan1 12)) = 8" "seconds (dt_sub (jan2 20) (jan1 13)) = 7"
  "seconds (dt_sub (jan2 20) (jan1 14)) = 6"
  by (simp_all add: dt_sub_jan2_jan1 mk_timedelta_def)

lemma seconds_same_day:
  "seconds (dt_sub (jan1 20) (jan1 10)) = 10" "seconds (dt_sub (jan1 20) (jan1 11)) = 9"
  "seconds (dt_sub (jan1 20) (jan1 12)) = 8" "seconds (dt_sub (jan1 20) (jan1 13)) = 7"
  "seconds (dt_sub (jan1 20) (jan1 14)) = 6"
  by (simp_all add: dt_sub_jan1_jan1 mk_timedelta_def)

lemma keep_next_day: "keep_recent (jan2 20) five_requests = five_requests"
  by (simp add: keep_recent_def five_requests_def WINDOW_def seconds_next_day)

lemma keep_same_day: "keep_recent (jan1 20) five_requests = five_requests"
  by (simp add: keep_recent_def five_requests_def WINDOW_def seconds_same_day)

lemma length_five: "length five_requests = 5"
  by (simp add: five_requests_def)

lemma elapsed_next_day: "elapsed (jan2 20) (jan1 14) = 86406000000"
  by (simp add: elapsed_def dt_sub_jan2_jan1 total_mk)

lemma dd_list_single: "dd_list [k \<mapsto> xs] k = xs"
  by (simp add: dd_list_def)

lemma media_registry: "media_db registry_42 43 = None" "media_db busy_client 43 = None"
  "media_db registry_42 42 \<noteq> None"
  by (simp_all add: registry_42_def busy_client_def)

lemma stores_example: "rate_limit_store registry_42 = Map.empty"
  "rate_limit_store busy_client = [''1.2.3.4'' \<mapsto> five_requests]"
  by (simp_all add: registry_42_def busy_client_def)

subsection \<open>The shape of an ISO date\<close>

lemma length_digits_le: "0 < w \<Longrightarrow> n < 10 ^ w \<Longrightarrow> length (digits n) \<le> w"
proof (induction n arbitrary: w rule: digits.induct)
  case (1 n)
  show ?case
  proof (cases "n < 10")
    case True
    with "1.prems" show ?thesis by (subst digits.simps) simp
  next
    case False
    obtain v where w: "w = Suc v" using "1.prems"(1) by (cases w) auto
    have "0 < v" using False "1.prems"(2) w by (cases v) auto
    moreover have "n div 10 < 10 ^ v" using "1.prems"(2) w by (simp add: less_mult_imp_div_less)
    ultimately have "length (digits (n div 10)) \<le> v" using "1.IH" False by simp
    with False w show ?thesis by (subst digits.simps) simp
  qed
qed

lemma length_zero_pad: "0 < w \<Longrightarrow> n < 10 ^ w \<Longrightarrow> length (zero_pad w n) = w"
  using length_digits_le [of w n] by (simp add: zero_pad_def)

lemma days_in_month_le: "1 \<le> m \<Longrightarrow> m \<le> 12 \<Longrightarrow> days_in_month y m \<le> 31"
proof -
  assume "1 \<le> m" "m \<le> 12"
  then have "m = 1 \<or> m = 2 \<or> m = 3 \<or> m = 4 \<or> m = 5 \<or> m = 6 \<or> m = 7 \<or> m = 8 \<or> m = 9
      \<or> m = 10 \<or> m = 11 \<or> m = 12" by arith
  then show ?thesis
    by (elim disjE) (simp_all add: days_in_month_def DAYS_IN_MONTH_def)
qed

lemma iso_layout:
  assumes "length a = 4" "length b = 2" "length c = 2"
  shows "length (a @ CHR ''-'' # b @ CHR ''-'' # c) = 10"
    "(a @ CHR ''-'' # b @ CHR ''-'' # c) ! 4 = CHR ''-''"
    "(a @ CHR ''-'' # b @ CHR ''-'' # c) ! 7 = CHR ''-''"
    "take 4 (a @ CHR ''-'' # b @ CHR ''-'' # c) = a"
    "take 2 (drop 5 (a @ CHR ''-'' # b @ CHR ''-'' # c)) = b"
    "drop 8 (a @ CHR ''-'' # b @ CHR ''-'' # c) = c"
  using assms by (simp_all add: nth_append)

lemma isoformat_alt:
  "isoformat d = zero_pad 4 (year d) @ CHR ''-'' # zero_pad 2 (month d) @ CHR ''-'' # zero_pad 2 (day d)"
  by (simp add: isoformat_def)

lemma iso_date_text_valid:
  assumes "valid_datetime t"
  shows "iso_date_text (year t) (month t) (day t) (isoformat (dt_date t))"
proof -
  from assms have y: "year t < 10 ^ 4" and m: "month t < 10 ^ 2" "1 \<le> month t" "month t \<le> 12"
    and d: "day t \<le> days_in_month (year t) (month t)"
    by (simp_all add: valid_datetime_def)
  from d days_in_month_le [OF m(2,3), of "year t"] have d2: "day t < 10 ^ 2" by simp
  have l: "length (zero_pad 4 (year t)) = 4" "length (zero_pad 2 (month t)) = 2"
    "length (zero_pad 2 (day t)) = 2"
    using y m(1) d2 by (simp_all only: length_zero_pad zero_less_numeral)
  have dg: "list_all is_digit (zero_pad 4 (year t) @ zero_pad 2 (month t) @ zero_pad 2 (day t))"
    by (auto simp: list_all_iff dest: zero_pad_all_digit)
  have sel: "year (dt_date t) = year t" "month (dt_date t) = month t" "day (dt_date t) = day t"
    by (simp_all add: dt_date_def)
  show ?thesis
    unfolding iso_date_text_def isoformat_alt sel iso_layout [OF l]
    using dg by (simp add: int_of_zero_pad)
qed

subsection \<open>The concrete views\<close>

lemma isoformat_jan:
  "isoformat (dt_date (jan1 k)) = ''2024-01-01''" "isoformat (dt_date (jan2 k)) = ''2024-01-02''"
  by (simp_all add: isoformat_def dt_date_def jan1_def jan2_def zero_pad_def digits.simps digit_char_def)

lemma isoformat_jan_date:
  "isoformat \<lparr>year = 2024, month = 1, day = 1\<rparr> = ''2024-01-01''"
  "isoformat \<lparr>year = 2024, month = 1, day = 2\<rparr> = ''2024-01-02''"
  "isoformat \<lparr>year = 2024, month = 1, day = 3\<rparr> = ''2024-01-03''"
  by (simp_all add: isoformat_def zero_pad_def digits.simps digit_char_def)

lemma valid_jan: "k < 60 \<Longrightarrow> valid_datetime (jan1 k)"
  by (simp add: valid_datetime_def jan1_def days_in_month_def DAYS_IN_MONTH_def)

lemma dt_date_jan:
  "dt_date (jan1 k) = \<lparr>year = 2024, month = 1, day = 1\<rparr>"
  "dt_date (jan2 k) = \<lparr>year = 2024, month = 1, day = 2\<rparr>"
  by (simp_all add: dt_date_def jan1_def jan2_def)

subsection \<open>Permuted views, written caches\<close>

lemma perm_items:
  assumes "mset views = mset views'"
  shows "set (views_per_day views) = set (views_per_day views')"
  using perm_days [OF assms]
    map_of_inject_set [OF distinct_views_per_day [of views] distinct_views_per_day [of views']]
  by blast

lemma mset_three: "mset three_views = mset three_views_shuffled"
  by (simp add: three_views_def three_views_shuffled_def)

lemma written_analytics: "written_text (py_repr (PDict (analytics views)))"
  unfolding written_text_def by blast

lemma cache_written_empty: "redis s = Map.empty \<Longrightarrow> cache_written s"
  by (simp add: cache_written_def)

lemma cache_written_get:
  assumes "cache_written s" "redis_get (redis s) k t = Some txt"
  shows "written_text txt"
proof -
  from assms(2) obtain e where "redis s k = Some (txt, e)"
    by (auto simp: redis_get_def split: option.splits if_splits)
  with assms(1) show ?thesis unfolding cache_written_def by blast
qed

lemma cache_written_setex:
  assumes "cache_written s"
  shows "cache_written (s\<lparr>views_db := v, redis := redis_setex (redis s) k ttl (py_repr (PDict (analytics views))) t\<rparr>)"
  using assms written_analytics [of views]
  unfolding cache_written_def redis_setex_def by (auto simp del: py_repr.simps)

lemma cache_written_delete:
  assumes "cache_written s"
  shows "cache_written (s\<lparr>rate_limit_store := r, views_db := v, redis := redis_delete (redis s) k\<rparr>)"
  using assms unfolding cache_written_def redis_delete_def by (auto split: if_splits)

lemma cache_written_rate: "cache_written s \<Longrightarrow> cache_written (s\<lparr>rate_limit_store := r\<rparr>)"
  by (simp add: cache_written_def)

lemma get_analytics_written:
  assumes "cache_written s" "media_db s media_id \<noteq> None" "\<not> cache_miss s media_id t_get"
  shows "\<exists>views. get_analytics s media_id t_get t_set = (Inr ((''cached'', PBool True) # analytics views), s)"
proof -
  from assms(3) obtain body where g: "redis_get (redis s) (cache_key media_id) t_get = Some body"
    by (auto simp: cache_miss_def split: option.splits)
  from cache_written_get [OF assms(1) g] obtain views where "body = py_repr (PDict (analytics views))"
    unfolding written_text_def by blast
  with g get_analytics_hit [OF assms(2), of t_get views t_set] show ?thesis by blast
qed

subsection \<open>The concrete states\<close>

lemma registry_fields:
  "views_db registry_42 = Map.empty" "redis registry_42 = Map.empty"
  "views_db warm_cache = Map.empty" "rate_limit_store warm_cache = Map.empty"
  "media_db warm_cache 42 \<noteq> None"
  by (simp_all add: registry_42_def warm_cache_def)

lemma warm_entries:
  "redis warm_cache (cache_key 42) = Some (py_repr (PDict (analytics [])), 60000000)"
  "redis warm_cache (cache_key 7) = Some (py_repr (PDict (analytics [])), 60000000)"
  using cache_key_inj [of 7 42] by (auto simp: warm_cache_def simp del: py_repr.simps)

lemma cache_written_warm: "cache_written warm_cache"
  unfolding cache_written_def warm_cache_def
  using written_analytics [of "[]"] by (auto simp del: py_repr.simps split: if_splits)

lemma keep_recent_nil: "keep_recent now [] = []"
  by (simp add: keep_recent_def)

lemma dd_list_empty: "dd_list Map.empty k = []"
  by (simp add: dd_list_def)

lemma log_view_first:
  assumes "media_db s 42 \<noteq> None" "rate_limit_store s = Map.empty"
  shows "log_view s 42 ''1.2.3.4'' (jan1 10) (jan1 11)
           = (Inr ''View logged'', snd (log_view s 42 ''1.2.3.4'' (jan1 10) (jan1 11)))"
  using assms
  by (simp add: log_view_def rate_limit_eq dd_list_empty keep_recent_nil RATE_LIMIT_def Let_def)

lemma first_read:
  "get_analytics registry_42 42 0 0 =
     (Inr ((''cached'', PBool False) # analytics []),
      registry_42\<lparr>views_db := [42 \<mapsto> []],
         redis := redis_setex Map.empty (cache_key 42) 60 (py_repr (PDict (analytics []))) 0\<rparr>)"
proof -
  have "cache_miss registry_42 42 0"
    by (simp add: cache_miss_def redis_get_def registry_fields)
  from get_analytics_miss [OF media_registry(3) this, of 0] show ?thesis
    by (simp add: registry_fields dd_list_empty del: py_repr.simps)
qed

lemma cache_written_log_view:
  assumes "cache_written s"
  shows "cache_written (snd (log_view s media_id host now_rl now))"
proof (cases "fst (log_view s media_id host now_rl now)")
  case (Inl e)
  obtain r st where l: "rate_limit (rate_limit_store s) host now_rl = (r, st)"
    by (cases "rate_limit (rate_limit_store s) host now_rl")
  with Inl have "snd (log_view s media_id host now_rl now) = s\<lparr>rate_limit_store := st\<rparr>"
    by (cases r) (auto simp: log_view_def Let_def split: if_splits)
  with assms show ?thesis by (simp add: cache_written_rate)
next
  case (Inr msg)
  then have "log_view s media_id host now_rl now = (Inr msg, snd (log_view s media_id host now_rl now))"
    by (cases "log_view s media_id host now_rl now") simp
  from log_view_ok [OF this] assms show ?thesis
    by (metis cache_written_delete)
qed

section \<open>The claims\<close>

text \<open>
  C1. The claim: at every call the timestamps of the caller are pruned so that \<open>t\<close> stays
  exactly when \<open>now - t < WINDOW\<close>, and a timestamp \<open>WINDOW\<close> seconds old or older,
  however much older, is gone before the capacity check. The source compares
  \<^verbatim>\<open>(now - ts).seconds\<close>, the seconds field of the normalised difference, which leaves
  the days out. Evaluated here: five requests between 00:00:10 and 00:00:14 on the first
  of January, and a sixth at 00:00:20 on the second. The youngest of the five is 86406
  seconds old; all five are kept, and the sixth request is refused.
\<close>

theorem rate_limit_keeps_day_old_timestamps:
  "elapsed (jan2 20) (jan1 14) = 86406000000 \<and>
   keep_recent (jan2 20) five_requests = five_requests \<and>
   fst (rate_limit [''1.2.3.4'' \<mapsto> five_requests] ''1.2.3.4'' (jan2 20))
     = Inl HTTP_429_Too_many_requests \<and>
   snd (rate_limit [''1.2.3.4'' \<mapsto> five_requests] ''1.2.3.4'' (jan2 20)) ''1.2.3.4''
     = Some five_requests"
  by (simp add: elapsed_next_day keep_next_day rate_limit_eq dd_list_single length_five RATE_LIMIT_def)

text \<open>
  C4. After an admitted request the window of the caller holds at most \<open>RATE_LIMIT\<close>
  timestamps; a call that finds \<open>RATE_LIMIT\<close> or more after the pruning is refused, and
  the store it leaves is the old one with the caller's window pruned, nothing appended.
\<close>

theorem rate_limit_capacity:
  "(fst (rate_limit store addr now) = Inr () \<longrightarrow>
      length (dd_list (snd (rate_limit store addr now)) addr) \<le> RATE_LIMIT) \<and>
   (RATE_LIMIT \<le> length (keep_recent now (dd_list store addr)) \<longrightarrow>
      rate_limit store addr now
        = (Inl HTTP_429_Too_many_requests, store(addr \<mapsto> keep_recent now (dd_list store addr))))"
  by (simp add: rate_limit_eq dd_list_def)

theorem rate_limit_capacity_witness:
  "length (dd_list (snd (rate_limit Map.empty ''1.2.3.4'' (jan1 10))) ''1.2.3.4'') \<le> RATE_LIMIT \<and>
   fst (rate_limit [''1.2.3.4'' \<mapsto> five_requests] ''1.2.3.4'' (jan1 20))
     = Inl HTTP_429_Too_many_requests \<and>
   snd (rate_limit [''1.2.3.4'' \<mapsto> five_requests] ''1.2.3.4'' (jan1 20)) ''1.2.3.4''
     = Some five_requests"
proof -
  have a: "fst (rate_limit Map.empty ''1.2.3.4'' (jan1 10)) = Inr ()"
    by (simp add: rate_limit_eq dd_list_def keep_recent_def RATE_LIMIT_def)
  have b: "RATE_LIMIT \<le> length (keep_recent (jan1 20) (dd_list [''1.2.3.4'' \<mapsto> five_requests] ''1.2.3.4''))"
    by (simp add: dd_list_single keep_same_day length_five RATE_LIMIT_def)
  from rate_limit_capacity [of Map.empty "''1.2.3.4''" "jan1 10"] a
  have "length (dd_list (snd (rate_limit Map.empty ''1.2.3.4'' (jan1 10))) ''1.2.3.4'') \<le> RATE_LIMIT"
    by blast
  moreover from rate_limit_capacity [of "[''1.2.3.4'' \<mapsto> five_requests]" "''1.2.3.4''" "jan1 20"] b
  have "rate_limit [''1.2.3.4'' \<mapsto> five_requests] ''1.2.3.4'' (jan1 20)
     = (Inl HTTP_429_Too_many_requests,
        [''1.2.3.4'' \<mapsto> five_requests](''1.2.3.4'' \<mapsto>
           keep_recent (jan1 20) (dd_list [''1.2.3.4'' \<mapsto> five_requests] ''1.2.3.4'')))"
    by blast
  ultimately show ?thesis
    by (simp add: dd_list_single keep_same_day)
qed

text \<open>
  C2. The claim: for a medium that is not registered \<^verbatim>\<open>log_view\<close> answers not found,
  never rate limited, and leaves the caller's window as it was. In the source the rate
  limiter is the first statement of the handler and the registry is consulted after it.
  The counterexample: on an unregistered medium a first request is answered not found and
  its timestamp is in the window; a client with five recent requests is answered 429.
\<close>

theorem log_view_unregistered_counterexample:
  "media_db registry_42 43 = None \<and>
   fst (log_view registry_42 43 ''1.2.3.4'' (jan1 10) (jan1 10)) = Inl HTTP_404_Media_not_found \<and>
   rate_limit_store registry_42 ''1.2.3.4'' = None \<and>
   rate_limit_store (snd (log_view registry_42 43 ''1.2.3.4'' (jan1 10) (jan1 10))) ''1.2.3.4''
     = Some [jan1 10] \<and>
   media_db busy_client 43 = None \<and>
   fst (log_view busy_client 43 ''1.2.3.4'' (jan1 20) (jan1 20)) = Inl HTTP_429_Too_many_requests"
proof -
  have a: "log_view registry_42 43 ''1.2.3.4'' (jan1 10) (jan1 10)
             = (Inl HTTP_404_Media_not_found,
                registry_42\<lparr>rate_limit_store := Map.empty(''1.2.3.4'' \<mapsto> [jan1 10])\<rparr>)"
    by (simp add: log_view_def rate_limit_eq media_registry stores_example dd_list_def
        keep_recent_def RATE_LIMIT_def)
  have b: "fst (log_view busy_client 43 ''1.2.3.4'' (jan1 20) (jan1 20)) = Inl HTTP_429_Too_many_requests"
    by (simp add: log_view_def rate_limit_eq stores_example dd_list_single keep_same_day
        length_five RATE_LIMIT_def)
  show ?thesis
    by (simp add: a b media_registry stores_example)
qed

text \<open>
  C2, amended. For a medium that is not registered, \<^verbatim>\<open>log_view\<close> first runs the rate
  limiter on the caller: when the pruned window holds \<open>RATE_LIMIT\<close> timestamps or more the
  answer is 429 and the window is left pruned; otherwise the answer is 404 and the window
  is the pruned one with the instant of the request appended. The log of views, the
  cache and the registry are as before in both cases.
\<close>

theorem log_view_unregistered_limited_first:
  "media_db s media_id = None \<Longrightarrow>
   log_view s media_id host now_rl now =
     (if RATE_LIMIT \<le> length (keep_recent now_rl (dd_list (rate_limit_store s) host))
      then (Inl HTTP_429_Too_many_requests,
            s\<lparr>rate_limit_store :=
                (rate_limit_store s)(host \<mapsto> keep_recent now_rl (dd_list (rate_limit_store s) host))\<rparr>)
      else (Inl HTTP_404_Media_not_found,
            s\<lparr>rate_limit_store :=
                (rate_limit_store s)(host \<mapsto> keep_recent now_rl (dd_list (rate_limit_store s) host) @ [now_rl])\<rparr>))"
  by (simp add: log_view_def rate_limit_eq Let_def)

theorem log_view_unregistered_limited_first_witness:
  "fst (log_view registry_42 43 ''1.2.3.4'' (jan1 10) (jan1 10)) = Inl HTTP_404_Media_not_found \<and>
   rate_limit_store (snd (log_view registry_42 43 ''1.2.3.4'' (jan1 10) (jan1 10))) ''1.2.3.4''
     = Some [jan1 10]"
  using log_view_unregistered_limited_first [OF media_registry(1), of "''1.2.3.4''" "jan1 10" "jan1 10"]
  by (simp add: stores_example dd_list_def keep_recent_def RATE_LIMIT_def)

text \<open>
  C3. For every list of views the summary holds under \<^verbatim>\<open>total_views\<close> the length of
  the list, under \<^verbatim>\<open>unique_ips\<close> the number of distinct addresses, and under
  \<^verbatim>\<open>views_per_day\<close> a dictionary with distinct keys that maps the ISO text of each
  date to the number of views on that date, and has no key but the text of the date of
  some view. For a view with a valid time the key is ten characters \<^verbatim>\<open>YYYY-MM-DD\<close> that
  read back as its year, month and day.
\<close>

theorem analytics_counts:
  "dict_get (analytics views) ''total_views'' = Some (PInt (int (length views))) \<and>
   dict_get (analytics views) ''unique_ips'' = Some (PInt (int (card (ip ` set views)))) \<and>
   dict_get (analytics views) ''views_per_day'' = Some (PDict (map wrap_int (views_per_day views))) \<and>
   distinct (map fst (views_per_day views)) \<and>
   (\<forall>d. dict_get (views_per_day views) (isoformat d) =
      (if \<exists>v\<in>set views. dt_date (time v) = d
       then Some (int (length (filter (\<lambda>v. dt_date (time v) = d) views))) else None)) \<and>
   (\<forall>k. (\<forall>v\<in>set views. isoformat (dt_date (time v)) \<noteq> k) \<longrightarrow> dict_get (views_per_day views) k = None) \<and>
   (\<forall>v\<in>set views. valid_datetime (time v) \<longrightarrow>
      iso_date_text (year (time v)) (month (time v)) (day (time v)) (isoformat (dt_date (time v))))"
proof -
  have wrap: "(\<lambda>kn. (fst kn, PInt (snd kn))) = wrap_int" by (rule ext) (simp add: wrap_int_def)
  have a: "dict_get (analytics views) ''total_views'' = Some (PInt (int (length views)))"
    by (simp add: dict_get_def analytics_def total_views_def)
  have b: "dict_get (analytics views) ''unique_ips'' = Some (PInt (int (card (ip ` set views))))"
    by (simp add: dict_get_def analytics_def unique_ips_def)
  have c: "dict_get (analytics views) ''views_per_day'' = Some (PDict (map wrap_int (views_per_day views)))"
    by (simp add: dict_get_def analytics_def wrap)
  have d: "dict_get (views_per_day views) (isoformat d) =
      (if \<exists>v\<in>set views. dt_date (time v) = d
       then Some (int (length (filter (\<lambda>v. dt_date (time v) = d) views))) else None)" for d
    by (auto simp: dict_get_def map_of_views_per_day views_on_date filter_empty_conv)
  have e: "dict_get (views_per_day views) k = None" if "\<forall>v\<in>set views. isoformat (dt_date (time v)) \<noteq> k" for k
    using that by (simp add: dict_get_def map_of_views_per_day views_on_def day_key_def filter_empty_conv)
  show ?thesis
    using a b c d e distinct_views_per_day iso_date_text_valid by blast
qed

theorem analytics_counts_witness:
  "dict_get (analytics three_views) ''total_views'' = Some (PInt 3) \<and>
   dict_get (analytics three_views) ''unique_ips'' = Some (PInt 2) \<and>
   dict_get (views_per_day three_views) ''2024-01-01'' = Some 2 \<and>
   dict_get (views_per_day three_views) ''2024-01-02'' = Some 1 \<and>
   dict_get (views_per_day three_views) ''2024-01-03'' = None \<and>
   iso_date_text 2024 1 1 ''2024-01-01''"
proof -
  note t = analytics_counts [of three_views]
  have v: "valid_datetime (jan1 10)" by (simp add: valid_jan)
  have m: "\<lparr>ip = ''1.2.3.4'', time = jan1 10\<rparr> \<in> set three_views" by (simp add: three_views_def)
  from t have q: "dict_get (views_per_day three_views) (isoformat d) =
      (if \<exists>v\<in>set three_views. dt_date (time v) = d
       then Some (int (length (filter (\<lambda>v. dt_date (time v) = d) three_views))) else None)" for d
    by blast
  from t have "dict_get (analytics three_views) ''total_views'' = Some (PInt 3)"
    by (simp add: three_views_def)
  moreover from t have "dict_get (analytics three_views) ''unique_ips'' = Some (PInt 2)"
    by (simp add: three_views_def card_insert_if)
  moreover have "dict_get (views_per_day three_views) ''2024-01-01'' = Some 2"
    using q [of "\<lparr>year = 2024, month = 1, day = 1\<rparr>"] unfolding isoformat_jan_date
    by (simp add: three_views_def dt_date_jan)
  moreover have "dict_get (views_per_day three_views) ''2024-01-02'' = Some 1"
    using q [of "\<lparr>year = 2024, month = 1, day = 2\<rparr>"] unfolding isoformat_jan_date
    by (simp add: three_views_def dt_date_jan)
  moreover have "dict_get (views_per_day three_views) ''2024-01-03'' = None"
    using q [of "\<lparr>year = 2024, month = 1, day = 3\<rparr>"] unfolding isoformat_jan_date
    by (simp add: three_views_def dt_date_jan)
  moreover from t m v
  have "iso_date_text (year (jan1 10)) (month (jan1 10)) (day (jan1 10)) (isoformat (dt_date (jan1 10)))"
    by fastforce
  then have "iso_date_text 2024 1 1 ''2024-01-01''"
    unfolding isoformat_jan by (simp add: jan1_def)
  ultimately show ?thesis
    by blast
qed

text \<open>
  C6. The summary does not depend on the order of the views: two lists that are
  permutations of each other give the same total, the same number of distinct
  addresses, and dictionaries of days with the same items (equal as Python dictionaries;
  the order of insertion, which \<^verbatim>\<open>==\<close> does not see, may differ). The summary is a
  function of the views alone: two misses, in any two states and at any instants, over
  the same list of views give the same answer.
\<close>

theorem analytics_order_independent:
  "(mset views = mset views' \<longrightarrow>
      total_views views = total_views views' \<and>
      unique_ips views = unique_ips views' \<and>
      (\<forall>k. dict_get (views_per_day views) k = dict_get (views_per_day views') k) \<and>
      set (views_per_day views) = set (views_per_day views')) \<and>
   (media_db s media_id \<noteq> None \<and> cache_miss s media_id t_get \<and>
    media_db s' media_id' \<noteq> None \<and> cache_miss s' media_id' t_get' \<and>
    dd_list (views_db s) media_id = dd_list (views_db s') media_id' \<longrightarrow>
      fst (get_analytics s media_id t_get t_set) = fst (get_analytics s' media_id' t_get' t_set'))"
proof (intro conjI impI)
  assume m: "mset views = mset views'"
  show "total_views views = total_views views'" by (rule perm_total [OF m])
  show "unique_ips views = unique_ips views'" by (rule perm_unique [OF m])
  show "\<forall>k. dict_get (views_per_day views) k = dict_get (views_per_day views') k"
    unfolding dict_get_def perm_days [OF m] by simp
  show "set (views_per_day views) = set (views_per_day views')" by (rule perm_items [OF m])
next
  assume a: "media_db s media_id \<noteq> None \<and> cache_miss s media_id t_get \<and>
    media_db s' media_id' \<noteq> None \<and> cache_miss s' media_id' t_get' \<and>
    dd_list (views_db s) media_id = dd_list (views_db s') media_id'"
  from a have m1: "media_db s media_id \<noteq> None" "cache_miss s media_id t_get"
    and m2: "media_db s' media_id' \<noteq> None" "cache_miss s' media_id' t_get'"
    by blast+
  have "fst (get_analytics s media_id t_get t_set)
               = Inr ((''cached'', PBool False) # analytics (dd_list (views_db s) media_id))"
    and "fst (get_analytics s' media_id' t_get' t_set')
               = Inr ((''cached'', PBool False) # analytics (dd_list (views_db s') media_id'))"
    unfolding get_analytics_miss [OF m1] get_analytics_miss [OF m2] by simp_all
  with a show "fst (get_analytics s media_id t_get t_set) = fst (get_analytics s' media_id' t_get' t_set')"
    by simp
qed

theorem analytics_order_independent_witness:
  "total_views three_views = total_views three_views_shuffled \<and>
   unique_ips three_views = unique_ips three_views_shuffled \<and>
   dict_get (views_per_day three_views) ''2024-01-01'' = dict_get (views_per_day three_views_shuffled) ''2024-01-01'' \<and>
   set (views_per_day three_views) = set (views_per_day three_views_shuffled) \<and>
   fst (get_analytics registry_42 42 0 0)
     = fst (get_analytics (registry_42\<lparr>rate_limit_store := [''1.2.3.4'' \<mapsto> five_requests]\<rparr>) 42 7 9)"
proof -
  have m: "cache_miss registry_42 42 0"
    "cache_miss (registry_42\<lparr>rate_limit_store := [''1.2.3.4'' \<mapsto> five_requests]\<rparr>) 42 7"
    by (simp_all add: cache_miss_def redis_get_def registry_42_def)
  have r: "media_db (registry_42\<lparr>rate_limit_store := [''1.2.3.4'' \<mapsto> five_requests]\<rparr>) 42 \<noteq> None"
    by (simp add: registry_42_def)
  have v: "dd_list (views_db registry_42) 42
             = dd_list (views_db (registry_42\<lparr>rate_limit_store := [''1.2.3.4'' \<mapsto> five_requests]\<rparr>)) 42"
    by simp
  show ?thesis
    using analytics_order_independent [of three_views three_views_shuffled registry_42 42 0
        "registry_42\<lparr>rate_limit_store := [''1.2.3.4'' \<mapsto> five_requests]\<rparr>" 42 7 0 9]
      mset_three m r v media_registry(3)
    by blast
qed

text \<open>
  C10. A successful \<^verbatim>\<open>log_view\<close> appends one view to the log of its medium, deletes
  the cache entry of that medium, and appends the instant of the request to the pruned
  window of the caller. The log of every other medium, every other cache entry (the keys
  of different media differ), the window of every other client and the registry are as
  before.
\<close>

theorem log_view_frame:
  "log_view s media_id host now_rl now = (Inr msg, s') \<Longrightarrow>
     dd_list (views_db s') media_id = dd_list (views_db s) media_id @ [\<lparr>ip = host, time = now\<rparr>] \<and>
     (\<forall>r. r \<noteq> media_id \<longrightarrow> views_db s' r = views_db s r) \<and>
     redis s' (cache_key media_id) = None \<and>
     (\<forall>k. k \<noteq> cache_key media_id \<longrightarrow> redis s' k = redis s k) \<and>
     (\<forall>r. r \<noteq> media_id \<longrightarrow> redis s' (cache_key r) = redis s (cache_key r)) \<and>
     dd_list (rate_limit_store s') host
       = keep_recent now_rl (dd_list (rate_limit_store s) host) @ [now_rl] \<and>
     (\<forall>h. h \<noteq> host \<longrightarrow> rate_limit_store s' h = rate_limit_store s h) \<and>
     media_db s' = media_db s"
proof -
  assume "log_view s media_id host now_rl now = (Inr msg, s')"
  from log_view_ok [OF this] have s': "s' = s\<lparr>rate_limit_store := (rate_limit_store s)(host \<mapsto> keep_recent now_rl (dd_list (rate_limit_store s) host) @ [now_rl]),
            views_db := (views_db s)(media_id \<mapsto> dd_list (views_db s) media_id @ [\<lparr>ip = host, time = now\<rparr>]),
            redis := redis_delete (redis s) (cache_key media_id)\<rparr>"
    by simp
  have inj: "cache_key r \<noteq> cache_key media_id" if "r \<noteq> media_id" for r
    using that cache_key_inj by blast
  show ?thesis
    unfolding s' by (simp add: dd_list_def redis_delete_def inj)
qed

theorem log_view_frame_witness:
  "dd_list (views_db (snd (log_view warm_cache 42 ''1.2.3.4'' (jan1 10) (jan1 11)))) 42
     = [\<lparr>ip = ''1.2.3.4'', time = jan1 11\<rparr>] \<and>
   views_db (snd (log_view warm_cache 42 ''1.2.3.4'' (jan1 10) (jan1 11))) 7 = None \<and>
   redis (snd (log_view warm_cache 42 ''1.2.3.4'' (jan1 10) (jan1 11))) (cache_key 42) = None \<and>
   redis (snd (log_view warm_cache 42 ''1.2.3.4'' (jan1 10) (jan1 11))) (cache_key 7)
     = Some (py_repr (PDict (analytics [])), 60000000) \<and>
   dd_list (rate_limit_store (snd (log_view warm_cache 42 ''1.2.3.4'' (jan1 10) (jan1 11)))) ''1.2.3.4''
     = [jan1 10] \<and>
   rate_limit_store (snd (log_view warm_cache 42 ''1.2.3.4'' (jan1 10) (jan1 11))) ''5.6.7.8'' = None"
proof -
  note f = log_view_frame [OF log_view_first [OF registry_fields(5,4)]]
  have "(7::int) \<noteq> 42" "''5.6.7.8'' \<noteq> ''1.2.3.4''" by simp_all
  with f show ?thesis
    by (simp add: registry_fields warm_entries dd_list_empty keep_recent_nil del: py_repr.simps)
qed

text \<open>
  C9. In every state \<^verbatim>\<open>get_analytics\<close> leaves the window of every client and the
  views of every medium as they were (reading the log of a medium without views enters
  its key with the empty list), and never answers 429. Moreover, on a cache that holds
  only texts written by \<^verbatim>\<open>get_analytics\<close>, as every cache the handlers produce from
  the empty one is, the decoding of a hit stays inside the literal fragment, so that its
  evaluation is the one modelled, and the cache remains such a cache.
\<close>

theorem get_analytics_frame:
  assumes "get_analytics s media_id t_get t_set = (res, s')"
  shows "rate_limit_store s' = rate_limit_store s \<and>
         (\<forall>r. dd_list (views_db s') r = dd_list (views_db s) r) \<and>
         media_db s' = media_db s \<and>
         res \<noteq> Inl HTTP_429_Too_many_requests \<and>
         (cache_written s \<longrightarrow>
            res \<noteq> Inl Eval_outside_literals \<and> res \<noteq> Inl TypeError_not_a_mapping \<and>
            cache_written s')"
proof -
  from get_analytics_cases [OF assms]
  have frame: "rate_limit_store s' = rate_limit_store s \<and>
         (\<forall>r. dd_list (views_db s') r = dd_list (views_db s) r) \<and> media_db s' = media_db s"
    by (auto simp: dd_list_def)
  have no429: "res \<noteq> Inl HTTP_429_Too_many_requests"
    using get_analytics_result [of s media_id t_get t_set] assms by simp
  have written: "res \<noteq> Inl Eval_outside_literals \<and> res \<noteq> Inl TypeError_not_a_mapping \<and> cache_written s'"
    if cw: "cache_written s"
  proof (cases "media_db s media_id = None")
    case True
    with assms cw show ?thesis by (auto simp: get_analytics_unregistered)
  next
    case False
    show ?thesis
    proof (cases "cache_miss s media_id t_get")
      case True
      from get_analytics_miss [OF False True, of t_set] assms
      have r: "res = Inr ((''cached'', PBool False) # analytics (dd_list (views_db s) media_id))"
        and s': "s' = s\<lparr>views_db := (views_db s)(media_id \<mapsto> dd_list (views_db s) media_id),
                redis := redis_setex (redis s) (cache_key media_id) 60
                           (py_repr (PDict (analytics (dd_list (views_db s) media_id)))) t_set\<rparr>"
        by simp_all
      have "cache_written s'" unfolding s' by (rule cache_written_setex [OF cw])
      then show ?thesis unfolding r by simp
    next
      case miss: False
      from get_analytics_written [OF cw False miss, of t_set] assms cw show ?thesis by auto
    qed
  qed
  from frame no429 written show ?thesis by blast
qed

theorem get_analytics_frame_witness:
  "rate_limit_store (snd (get_analytics warm_cache 42 0 0)) = rate_limit_store warm_cache \<and>
   dd_list (views_db (snd (get_analytics warm_cache 42 0 0))) 42 = dd_list (views_db warm_cache) 42 \<and>
   fst (get_analytics warm_cache 42 0 0) \<noteq> Inl HTTP_429_Too_many_requests \<and>
   fst (get_analytics warm_cache 42 0 0) \<noteq> Inl Eval_outside_literals \<and>
   cache_written (snd (get_analytics warm_cache 42 0 0))"
  using get_analytics_frame [of warm_cache 42 0 0
      "fst (get_analytics warm_cache 42 0 0)" "snd (get_analytics warm_cache 42 0 0)"]
    cache_written_warm
  by simp

text \<open>
  C7. An entry stored with a time to live of 60 seconds at the instant \<open>t0\<close> is absent
  for a \<^verbatim>\<open>get\<close> at \<open>t0 + 61 s\<close> or later; \<^verbatim>\<open>get_analytics\<close> then computes the
  summary from the log and answers with \<^verbatim>\<open>cached\<close> false.
\<close>

theorem cache_entry_expires:
  assumes "media_db s media_id \<noteq> None"
    and "redis s = redis_setex c (cache_key media_id) 60 txt t0"
    and "t0 + 61 * 1000000 \<le> t"
  shows "redis_get (redis s) (cache_key media_id) t = None \<and>
         fst (get_analytics s media_id t t_set)
           = Inr ((''cached'', PBool False) # analytics (dd_list (views_db s) media_id))"
proof -
  have g: "redis_get (redis s) (cache_key media_id) t = None"
    using assms(3) by (simp add: assms(2) redis_get_setex)
  then have "cache_miss s media_id t" by (simp add: cache_miss_def)
  from get_analytics_miss [OF assms(1) this] g show ?thesis by simp
qed

theorem cache_entry_expires_witness:
  "redis_get (redis (snd (get_analytics registry_42 42 0 0))) (cache_key 42) 61000000 = None \<and>
   fst (get_analytics (snd (get_analytics registry_42 42 0 0)) 42 61000000 61000000)
     = Inr ((''cached'', PBool False) # analytics [])"
proof -
  let ?s = "snd (get_analytics registry_42 42 0 0)"
  have a: "media_db ?s 42 \<noteq> None" by (simp add: first_read media_registry del: py_repr.simps)
  have b: "redis ?s = redis_setex Map.empty (cache_key 42) 60 (py_repr (PDict (analytics []))) 0"
    by (simp add: first_read del: py_repr.simps)
  have c: "(0::int) + 61 * 1000000 \<le> 61000000" by simp
  have v: "dd_list (views_db ?s) 42 = []" by (simp add: first_read dd_list_def del: py_repr.simps)
  from cache_entry_expires [OF a b c, of 61000000] show ?thesis
    by (simp only: v)
qed

text \<open>
  C5. After a successful \<^verbatim>\<open>log_view\<close> on a medium, the next \<^verbatim>\<open>get_analytics\<close> of
  that medium answers with \<^verbatim>\<open>cached\<close> false and the summary of the log with the new
  view at its end (one more view in total); a second \<^verbatim>\<open>get_analytics\<close> before the
  entry expires answers with \<^verbatim>\<open>cached\<close> true and the same summary.
\<close>

theorem read_after_write:
  assumes "log_view s media_id host now_rl now = (Inr msg, s1)"
    and "get_analytics s1 media_id t_get t_set = (res1, s2)"
    and "t2 < t_set + 60 * 1000000"
  shows "res1 = Inr ((''cached'', PBool False) #
                  analytics (dd_list (views_db s) media_id @ [\<lparr>ip = host, time = now\<rparr>])) \<and>
         total_views (dd_list (views_db s1) media_id) = total_views (dd_list (views_db s) media_id) + 1 \<and>
         fst (get_analytics s2 media_id t2 t3)
           = Inr ((''cached'', PBool True) #
                  analytics (dd_list (views_db s) media_id @ [\<lparr>ip = host, time = now\<rparr>]))"
proof -
  let ?views = "dd_list (views_db s) media_id @ [\<lparr>ip = host, time = now\<rparr>]"
  from log_view_ok [OF assms(1)] have reg: "media_db s media_id \<noteq> None"
    and s1: "s1 = s\<lparr>rate_limit_store := (rate_limit_store s)(host \<mapsto> keep_recent now_rl (dd_list (rate_limit_store s) host) @ [now_rl]),
            views_db := (views_db s)(media_id \<mapsto> ?views),
            redis := redis_delete (redis s) (cache_key media_id)\<rparr>"
    by simp_all
  have reg1: "media_db s1 media_id \<noteq> None" using reg by (simp add: s1)
  have v1: "dd_list (views_db s1) media_id = ?views" by (simp add: s1 dd_list_def)
  have "cache_miss s1 media_id t_get"
    by (simp add: s1 cache_miss_def redis_get_def redis_delete_def)
  from get_analytics_miss [OF reg1 this, of t_set] assms(2)
  have r1: "res1 = Inr ((''cached'', PBool False) # analytics ?views)"
    and s2: "s2 = s1\<lparr>views_db := (views_db s1)(media_id \<mapsto> dd_list (views_db s1) media_id),
              redis := redis_setex (redis s1) (cache_key media_id) 60
                         (py_repr (PDict (analytics ?views))) t_set\<rparr>"
    by (simp_all add: v1)
  have reg2: "media_db s2 media_id \<noteq> None" using reg1 by (simp add: s2)
  have "redis_get (redis s2) (cache_key media_id) t2 = Some (py_repr (PDict (analytics ?views)))"
    using assms(3) by (simp add: s2 redis_get_setex del: py_repr.simps)
  from get_analytics_hit [OF reg2 this, of t3]
  have "fst (get_analytics s2 media_id t2 t3) = Inr ((''cached'', PBool True) # analytics ?views)"
    by simp
  with r1 v1 show ?thesis by (simp add: total_views_def)
qed

theorem read_after_write_witness:
  "fst (get_analytics (snd (log_view registry_42 42 ''1.2.3.4'' (jan1 10) (jan1 11))) 42 0 0)
     = Inr ((''cached'', PBool False) # analytics [\<lparr>ip = ''1.2.3.4'', time = jan1 11\<rparr>]) \<and>
   fst (get_analytics
          (snd (get_analytics (snd (log_view registry_42 42 ''1.2.3.4'' (jan1 10) (jan1 11))) 42 0 0))
          42 5 5)
     = Inr ((''cached'', PBool True) # analytics [\<lparr>ip = ''1.2.3.4'', time = jan1 11\<rparr>])"
proof -
  let ?s1 = "snd (log_view registry_42 42 ''1.2.3.4'' (jan1 10) (jan1 11))"
  have a: "log_view registry_42 42 ''1.2.3.4'' (jan1 10) (jan1 11) = (Inr ''View logged'', ?s1)"
    by (rule log_view_first [OF media_registry(3) stores_example(1)])
  have b: "get_analytics ?s1 42 0 0 = (fst (get_analytics ?s1 42 0 0), snd (get_analytics ?s1 42 0 0))"
    by simp
  have c: "(5::int) < 0 + 60 * 1000000" by simp
  from read_after_write [OF a b c, of 5] show ?thesis
    by (simp add: registry_fields dd_list_empty)
qed

text \<open>
  C8. The text \<^verbatim>\<open>str\<close> prints for a summary is read back by \<^verbatim>\<open>eval\<close> as that
  summary. So a miss answers with the summary and stores its text, and a hit before the
  entry expires answers with the summary that the miss stored.
\<close>

theorem cached_summary_round_trip:
  "py_eval (py_repr (PDict (analytics views))) = Some (PDict (analytics views)) \<and>
   (media_db s media_id \<noteq> None \<and> cache_miss s media_id t_get \<and> t2 < t_set + 60 * 1000000 \<longrightarrow>
      fst (get_analytics s media_id t_get t_set)
        = Inr ((''cached'', PBool False) # analytics (dd_list (views_db s) media_id)) \<and>
      redis_get (redis (snd (get_analytics s media_id t_get t_set))) (cache_key media_id) t2
        = Some (py_repr (PDict (analytics (dd_list (views_db s) media_id)))) \<and>
      get_analytics (snd (get_analytics s media_id t_get t_set)) media_id t2 t3
        = (Inr ((''cached'', PBool True) # analytics (dd_list (views_db s) media_id)),
           snd (get_analytics s media_id t_get t_set)))"
proof (intro conjI impI)
  show "py_eval (py_repr (PDict (analytics views))) = Some (PDict (analytics views))"
    by (rule eval_analytics)
next
  let ?a = "analytics (dd_list (views_db s) media_id)"
  let ?s1 = "snd (get_analytics s media_id t_get t_set)"
  assume a: "media_db s media_id \<noteq> None \<and> cache_miss s media_id t_get \<and> t2 < t_set + 60 * 1000000"
  then have reg: "media_db s media_id \<noteq> None" and miss: "cache_miss s media_id t_get"
    and t: "t2 < t_set + 60 * 1000000" by blast+
  note m = get_analytics_miss [OF reg miss, of t_set]
  show "fst (get_analytics s media_id t_get t_set) = Inr ((''cached'', PBool False) # ?a)"
    unfolding m by simp
  show g: "redis_get (redis ?s1) (cache_key media_id) t2 = Some (py_repr (PDict ?a))"
    unfolding m using t by (simp add: redis_get_setex del: py_repr.simps)
  have "media_db ?s1 media_id \<noteq> None" unfolding m using reg by simp
  from get_analytics_hit [OF this g]
  show "get_analytics ?s1 media_id t2 t3 = (Inr ((''cached'', PBool True) # ?a), ?s1)" .
qed

theorem cached_summary_round_trip_witness:
  "py_eval (py_repr (PDict (analytics three_views))) = Some (PDict (analytics three_views)) \<and>
   fst (get_analytics registry_42 42 0 0) = Inr ((''cached'', PBool False) # analytics []) \<and>
   get_analytics (snd (get_analytics registry_42 42 0 0)) 42 5 5
     = (Inr ((''cached'', PBool True) # analytics []), snd (get_analytics registry_42 42 0 0))"
proof -
  have m: "cache_miss registry_42 42 0"
    by (simp add: cache_miss_def redis_get_def registry_fields)
  have c: "(5::int) < 0 + 60 * 1000000" by simp
  from cached_summary_round_trip [of three_views registry_42 42 0 5 0 5] media_registry(3) m c
  show ?thesis
    by (simp add: registry_fields dd_list_empty del: py_repr.simps)
qed

end
